theory Spec2Isabelle
  imports Complex_Main "HOL-Library.Log_Nat"
begin

unbundle bit_operations_syntax

section \<open>The double type of the C source\<close>

text \<open>
  The routine \<^verbatim>\<open>airy\<close> of \<^verbatim>\<open>itpp/base/bessel/airy.cpp\<close> computes on C doubles.
  A double is modelled as an IEEE 754 binary64 datum: a signed finite value (the sign
  is kept apart, so that both zeros exist), a signed infinity, or a NaN. The magnitude of
  a finite double is a rational number. Every arithmetic operation computes the exact
  result and rounds it once, to nearest with ties to even, as the operations of the C
  source do when each of them is evaluated in binary64.
\<close>

datatype double = Finite bool rat | Infinity bool | NaN

fun valof :: "double \<Rightarrow> rat" where
  "valof (Finite s r) = (if s then - r else r)"
| "valof (Infinity s) = 0"
| "valof NaN = 0"

text \<open>Rounding a rational to the nearest integer, ties to the even one.\<close>

definition rhe :: "rat \<Rightarrow> int" where
  "rhe y =
     (let k = \<lfloor>y\<rfloor>; d = y - of_int k
      in if d < 1 / 2 then k else if 1 / 2 < d then k + 1 else if even k then k else k + 1)"

text \<open>
  Rounding a magnitude to binary64. In units of \<open>2^-1074\<close> (the smallest subnormal) the
  doubles below \<open>2^53\<close> units are the integers, and a magnitude of \<open>b > 53\<close> bits is
  rounded to a multiple of \<open>2^(b - 53)\<close> units. The exponent is not bounded here; the
  overflow to infinity is decided on the rounded value, as IEEE 754 does.
\<close>

definition rnd :: "rat \<Rightarrow> rat" where
  "rnd r =
     (let n = \<lfloor>r * 2 ^ 1074\<rfloor>;
          u = 2 ^ nat (bitlen n - 53) / 2 ^ 1074
      in of_int (rhe (r / u)) * u)"

definition round_double :: "bool \<Rightarrow> rat \<Rightarrow> double" where
  "round_double s r = (let v = rnd r in if 2 ^ 1024 \<le> v then Infinity s else Finite s v)"

text \<open>A decimal literal of the source denotes the double nearest to it.\<close>

definition lit :: "rat \<Rightarrow> double" where
  "lit r = round_double False r"

text \<open>
  The datatype has more values than binary64: a datum is a double when it is an infinity,
  a NaN, or a finite value whose magnitude is not negative, is below \<open>2^1024\<close> and is
  left unchanged by the rounding.
\<close>

definition is_double :: "double \<Rightarrow> bool" where
  "is_double a = (case a of Finite s r \<Rightarrow> 0 \<le> r \<and> r < 2 ^ 1024 \<and> rnd r = r | _ \<Rightarrow> True)"

fun dneg :: "double \<Rightarrow> double" where
  "dneg (Finite s r) = Finite (\<not> s) r"
| "dneg (Infinity s) = Infinity (\<not> s)"
| "dneg NaN = NaN"

fun fabs :: "double \<Rightarrow> double" where
  "fabs (Finite s r) = Finite False r"
| "fabs (Infinity s) = Infinity False"
| "fabs NaN = NaN"

fun dadd :: "double \<Rightarrow> double \<Rightarrow> double" where
  "dadd (Finite s r) (Finite s' r') =
     (let v = valof (Finite s r) + valof (Finite s' r')
      in if v = 0 then Finite (s \<and> s') 0 else round_double (v < 0) \<bar>v\<bar>)"
| "dadd (Finite s r) (Infinity s') = Infinity s'"
| "dadd (Infinity s) (Finite s' r') = Infinity s"
| "dadd (Infinity s) (Infinity s') = (if s = s' then Infinity s else NaN)"
| "dadd NaN b = NaN"
| "dadd a NaN = NaN"

definition dsub :: "double \<Rightarrow> double \<Rightarrow> double" where
  "dsub a b = dadd a (dneg b)"

fun dmul :: "double \<Rightarrow> double \<Rightarrow> double" where
  "dmul (Finite s r) (Finite s' r') = round_double (s \<noteq> s') (r * r')"
| "dmul (Finite s r) (Infinity s') = (if r = 0 then NaN else Infinity (s \<noteq> s'))"
| "dmul (Infinity s) (Finite s' r') = (if r' = 0 then NaN else Infinity (s \<noteq> s'))"
| "dmul (Infinity s) (Infinity s') = Infinity (s \<noteq> s')"
| "dmul NaN b = NaN"
| "dmul a NaN = NaN"

fun ddiv :: "double \<Rightarrow> double \<Rightarrow> double" where
  "ddiv (Finite s r) (Finite s' r') =
     (if r' = 0 then (if r = 0 then NaN else Infinity (s \<noteq> s'))
      else round_double (s \<noteq> s') (r / r'))"
| "ddiv (Finite s r) (Infinity s') = Finite (s \<noteq> s') 0"
| "ddiv (Infinity s) (Finite s' r') = Infinity (s \<noteq> s')"
| "ddiv (Infinity s) (Infinity s') = NaN"
| "ddiv NaN b = NaN"
| "ddiv a NaN = NaN"

text \<open>The comparisons are false as soon as an operand is a NaN.\<close>

fun dlt :: "double \<Rightarrow> double \<Rightarrow> bool" where
  "dlt (Finite s r) (Finite s' r') = (valof (Finite s r) < valof (Finite s' r'))"
| "dlt (Finite s r) (Infinity s') = (\<not> s')"
| "dlt (Infinity s) (Finite s' r') = s"
| "dlt (Infinity s) (Infinity s') = (s \<and> \<not> s')"
| "dlt NaN b = False"
| "dlt a NaN = False"

fun dle :: "double \<Rightarrow> double \<Rightarrow> bool" where
  "dle (Finite s r) (Finite s' r') = (valof (Finite s r) \<le> valof (Finite s' r'))"
| "dle (Finite s r) (Infinity s') = (\<not> s')"
| "dle (Infinity s) (Finite s' r') = s"
| "dle (Infinity s) (Infinity s') = (if s' then s else True)"
| "dle NaN b = False"
| "dle a NaN = False"

definition dgt :: "double \<Rightarrow> double \<Rightarrow> bool" where
  "dgt a b = dlt b a"

definition dge :: "double \<Rightarrow> double \<Rightarrow> bool" where
  "dge a b = dle b a"

section \<open>Constants and coefficient tables\<close>

definition c1 :: double where
  "c1 = lit (35502805388781723926 / 10 ^ 20)"

definition c2 :: double where
  "c2 = lit (258819403792806798405 / 10 ^ 21)"

definition sqrt3 :: double where
  "sqrt3 = lit (1732050807568877293527 / 10 ^ 21)"

definition sqpii :: double where
  "sqpii = lit (564189583547756286948 / 10 ^ 21)"

definition MAXAIRY :: double where
  "MAXAIRY = lit (2577 / 10 ^ 2)"

definition PI :: double where
  "PI = lit (314159265358979323846 / 10 ^ 20)"

definition MAXNUM :: double where
  "MAXNUM = lit (179769313486231570815 * 10 ^ 288)"

definition MACHEP :: double where
  "MACHEP = lit (111022302462515654042 / 10 ^ 36)"

definition AN :: "double list" where
  "AN =
    [lit (346538101525629032477 / 10 ^ 21),
     lit (120075952739645805542 / 10 ^ 19),
     lit (762796053615234516538 / 10 ^ 19),
     lit (168089224934630576269 / 10 ^ 18),
     lit (159756391350164413639 / 10 ^ 18),
     lit (705360906840444183113 / 10 ^ 19),
     lit (140264691163389668864 / 10 ^ 19),
     lit (999999999999999995305 / 10 ^ 21)]"

definition AD :: "double list" where
  "AD =
    [lit (567594532638770212846 / 10 ^ 21),
     lit (147562562584847203173 / 10 ^ 19),
     lit (845138970141474626562 / 10 ^ 19),
     lit (177318088145400459522 / 10 ^ 18),
     lit (164234692871529701831 / 10 ^ 18),
     lit (714778400825575695274 / 10 ^ 19),
     lit (140959135607834029598 / 10 ^ 19),
     lit (100000000000000000470 / 10 ^ 20)]"

definition APN :: "double list" where
  "APN =
    [lit (613759184814035759225 / 10 ^ 21),
     lit (147454670787755323881 / 10 ^ 19),
     lit (820584123476060982430 / 10 ^ 19),
     lit (171184781360976385540 / 10 ^ 18),
     lit (159317847137141783523 / 10 ^ 18),
     lit (699778599330103016170 / 10 ^ 19),
     lit (139470856980481566958 / 10 ^ 19),
     lit (100000000000000000550 / 10 ^ 20)]"

definition APD :: "double list" where
  "APD =
    [lit (334203677749736953049 / 10 ^ 21),
     lit (111810297306158156705 / 10 ^ 19),
     lit (711727352147859965283 / 10 ^ 19),
     lit (158778084372838313640 / 10 ^ 18),
     lit (153206427475809220834 / 10 ^ 18),
     lit (686752304592780337944 / 10 ^ 19),
     lit (138498634758259442477 / 10 ^ 19),
     lit (999999999999999994502 / 10 ^ 21)]"

definition BN16 :: "double list" where
  "BN16 =
    [(dneg (lit (253240795869364152689 / 10 ^ 21))),
     lit (575285167332467384228 / 10 ^ 21),
     (dneg (lit (329907036873225371650 / 10 ^ 21))),
     lit (644404068948199951727 / 10 ^ 22),
     (dneg (lit (382519546641336734394 / 10 ^ 23)))]"

definition BD16 :: "double list" where
  "BD16 =
    [(dneg (lit (715685095054035237902 / 10 ^ 20))),
     lit (106039580715664694291 / 10 ^ 19),
     (dneg (lit (523246636471251500874 / 10 ^ 20))),
     lit (957395864378383833152 / 10 ^ 21),
     (dneg (lit (550828147163549611107 / 10 ^ 22)))]"

definition BPPN :: "double list" where
  "BPPN =
    [lit (465461162774651610328 / 10 ^ 21),
     (dneg (lit (108992173800493920734 / 10 ^ 20))),
     lit (638800117371827987759 / 10 ^ 21),
     (dneg (lit (126844349553102907034 / 10 ^ 21))),
     lit (762487844342109852105 / 10 ^ 23)]"

definition BPPD :: "double list" where
  "BPPD =
    [(dneg (lit (870622787633159124240 / 10 ^ 20))),
     lit (138993162704553213172 / 10 ^ 19),
     (dneg (lit (714116144616431159572 / 10 ^ 20))),
     lit (134008595960680518666 / 10 ^ 20),
     (dneg (lit (784273211323341930448 / 10 ^ 22)))]"

definition AFN :: "double list" where
  "AFN =
    [(dneg (lit (131696323418331795333 / 10 ^ 21))),
     (dneg (lit (626456544431912369773 / 10 ^ 21))),
     (dneg (lit (693158036036933542233 / 10 ^ 21))),
     (dneg (lit (279779981545119124951 / 10 ^ 21))),
     (dneg (lit (491900132609500318020 / 10 ^ 22))),
     (dneg (lit (406265923594885404393 / 10 ^ 23))),
     (dneg (lit (159276496239262096340 / 10 ^ 24))),
     (dneg (lit (277649108155232920844 / 10 ^ 26))),
     (dneg (lit (167787698489114633780 / 10 ^ 28)))]"

definition AFD :: "double list" where
  "AFD =
    [lit (133560420706553243746 / 10 ^ 19),
     lit (326825032795224613948 / 10 ^ 19),
     lit (267367040941499554804 / 10 ^ 19),
     lit (918707402907259625840 / 10 ^ 20),
     lit (147529146771666414581 / 10 ^ 20),
     lit (115687173795188044134 / 10 ^ 21),
     lit (440291641615211203805 / 10 ^ 23),
     lit (754720348287414296618 / 10 ^ 25),
     lit (451850092970580378464 / 10 ^ 27)]"

definition AGN :: "double list" where
  "AGN =
    [lit (197339932091685679179 / 10 ^ 22),
     lit (391103029615688277255 / 10 ^ 21),
     lit (106579897599595591108 / 10 ^ 20),
     lit (939169229816650230044 / 10 ^ 21),
     lit (351465656105547619242 / 10 ^ 21),
     lit (633888919628925490927 / 10 ^ 22),
     lit (585804113048388458567 / 10 ^ 23),
     lit (282851600836737019778 / 10 ^ 24),
     lit (698793669997260967291 / 10 ^ 26),
     lit (811789239554389293311 / 10 ^ 28),
     lit (341551784765923618484 / 10 ^ 30)]"

definition AGD :: "double list" where
  "AGD =
    [lit (930892908077441974853 / 10 ^ 20),
     lit (198352928718312140417 / 10 ^ 19),
     lit (155646628932864612953 / 10 ^ 19),
     lit (547686069422975497931 / 10 ^ 20),
     lit (954293611618961883998 / 10 ^ 21),
     lit (864580826352392193095 / 10 ^ 22),
     lit (412656523824222607191 / 10 ^ 23),
     lit (101259085116509135510 / 10 ^ 24),
     lit (117166733214413521882 / 10 ^ 26),
     lit (491834570062930015649 / 10 ^ 29)]"

definition APFN :: "double list" where
  "APFN =
    [lit (185365624022535566142 / 10 ^ 21),
     lit (886712188052584095637 / 10 ^ 21),
     lit (987391981747398547272 / 10 ^ 21),
     lit (401241082318003734092 / 10 ^ 21),
     lit (710304926289631174579 / 10 ^ 22),
     lit (590618657995661810071 / 10 ^ 23),
     lit (233051409401776799569 / 10 ^ 24),
     lit (408718778289035454598 / 10 ^ 26),
     lit (248379932900442457853 / 10 ^ 28)]"

definition APFD :: "double list" where
  "APFD =
    [lit (147345854687502542552 / 10 ^ 19),
     lit (375423933435489594466 / 10 ^ 19),
     lit (314657751203046424330 / 10 ^ 19),
     lit (109969125207298778536 / 10 ^ 19),
     lit (178885054766999417817 / 10 ^ 20),
     lit (141733275753662636873 / 10 ^ 21),
     lit (544066067017226003627 / 10 ^ 23),
     lit (939421290654511171663 / 10 ^ 25),
     lit (565978713036027009243 / 10 ^ 27)]"

definition APGN :: "double list" where
  "APGN =
    [(dneg (lit (355615429033082288335 / 10 ^ 22))),
     (dneg (lit (637311518129435504426 / 10 ^ 21))),
     (dneg (lit (170856738884312371053 / 10 ^ 20))),
     (dneg (lit (150221872117316635393 / 10 ^ 20))),
     (dneg (lit (563606665822102676611 / 10 ^ 21))),
     (dneg (lit (102101031120216891789 / 10 ^ 21))),
     (dneg (lit (948396695961445269093 / 10 ^ 23))),
     (dneg (lit (460325307486780994357 / 10 ^ 24))),
     (dneg (lit (114300836484517375919 / 10 ^ 25))),
     (dneg (lit (133415518685547420648 / 10 ^ 27))),
     (dneg (lit (563803833958893494476 / 10 ^ 30)))]"

definition APGD :: "double list" where
  "APGD =
    [lit (985865801696130355144 / 10 ^ 20),
     lit (216401867356585941885 / 10 ^ 19),
     lit (173130776389749389525 / 10 ^ 19),
     lit (617872175280828766327 / 10 ^ 20),
     lit (108848694396321495475 / 10 ^ 20),
     lit (995005543440888479402 / 10 ^ 22),
     lit (478468199683886610842 / 10 ^ 23),
     lit (118159633322838625562 / 10 ^ 24),
     lit (137480673554219441465 / 10 ^ 26),
     lit (579912514929147598821 / 10 ^ 29),
     lit 0]"

section \<open>The math library and the polynomial evaluators\<close>

text \<open>
  \<^verbatim>\<open>sqrt\<close>, \<^verbatim>\<open>exp\<close>, \<^verbatim>\<open>sin\<close> and \<^verbatim>\<open>cos\<close> come from the C math library, which is
  not part of the repository. They are parameters of the model: any four functions on
  doubles.
\<close>

record libm =
  m_sqrt :: "double \<Rightarrow> double"
  m_exp :: "double \<Rightarrow> double"
  m_sin :: "double \<Rightarrow> double"
  m_cos :: "double \<Rightarrow> double"

text \<open>
  Modelled from the spec: \<^verbatim>\<open>polevl\<close> and \<^verbatim>\<open>p1evl\<close> are declared in
  \<^verbatim>\<open>bessel_internal.h\<close>, which is missing from the sources at hand. The spec describes
  them (as evalPoly and evalPoly1) as Horner's rule on a coefficient list ordered from the
  highest degree, evalPoly1 having an implicit leading coefficient 1.0. The call
  \<^verbatim>\<open>polevl(x, coef, N)\<close> reads the \<open>N + 1\<close> first coefficients, and
  \<^verbatim>\<open>p1evl(x, coef, N)\<close> the \<open>N\<close> first ones.
\<close>

definition horner :: "double \<Rightarrow> double \<Rightarrow> double list \<Rightarrow> double" where
  "horner x a cs = foldl (\<lambda>ans c. dadd (dmul ans x) c) a cs"

definition evalPoly :: "double \<Rightarrow> double list \<Rightarrow> double" where
  "evalPoly x cs = (case cs of [] \<Rightarrow> lit 0 | c # cs' \<Rightarrow> horner x c cs')"

definition evalPoly1 :: "double \<Rightarrow> double list \<Rightarrow> double" where
  "evalPoly1 x cs = horner x (lit 1) cs"

definition polevl :: "double \<Rightarrow> double list \<Rightarrow> nat \<Rightarrow> double" where
  "polevl x coef N = evalPoly x (take (N + 1) coef)"

definition p1evl :: "double \<Rightarrow> double list \<Rightarrow> nat \<Rightarrow> double" where
  "p1evl x coef N = evalPoly1 x (take N coef)"

section \<open>The routine airy\<close>

text \<open>
  The four results are written through pointers. The caller's four locations are a
  record; a field is \<open>None\<close> as long as it holds no defined value. The routine takes
  the locations as they are before the call and returns them with the status.
\<close>

record outs =
  ai :: "double option"
  aip :: "double option"
  bi :: "double option"
  bip :: "double option"

text \<open>The branch \<^verbatim>\<open>x < -2.09\<close>.\<close>

definition airy_neg :: "libm \<Rightarrow> double \<Rightarrow> outs \<Rightarrow> outs" where
  "airy_neg M x out =
     (let t = m_sqrt M (dneg x);
          zeta = ddiv (dmul (dmul (dneg (lit 2)) x) t) (lit 3);
          t = m_sqrt M t;
          k = ddiv sqpii t;
          z = ddiv (lit 1) zeta;
          zz = dmul z z;
          uf = dadd (lit 1) (ddiv (dmul zz (polevl zz AFN 8)) (p1evl zz AFD 9));
          ug = ddiv (dmul z (polevl zz AGN 10)) (p1evl zz AGD 10);
          theta = dadd zeta (dmul (lit (25 / 10 ^ 2)) PI);
          f = m_sin M theta;
          g = m_cos M theta;
          out = out\<lparr>ai := Some (dmul k (dsub (dmul f uf) (dmul g ug)))\<rparr>;
          out = out\<lparr>bi := Some (dmul k (dadd (dmul g uf) (dmul f ug)))\<rparr>;
          uf = dadd (lit 1) (ddiv (dmul zz (polevl zz APFN 8)) (p1evl zz APFD 9));
          ug = ddiv (dmul z (polevl zz APGN 10)) (p1evl zz APGD 10);
          k = dmul sqpii t;
          out = out\<lparr>aip := Some (dmul (dneg k) (dadd (dmul g uf) (dmul f ug)))\<rparr>;
          out = out\<lparr>bip := Some (dmul k (dsub (dmul f uf) (dmul g ug)))\<rparr>
      in out)"

text \<open>
  The branch \<^verbatim>\<open>x >= 2.09\<close>, up to the test \<^verbatim>\<open>x > 8.3203353\<close>. It returns the
  locations and the locals \<open>t\<close>, \<open>g\<close> and \<open>z\<close>, which the rest of the branch reads.
\<close>

definition airy_pos :: "libm \<Rightarrow> double \<Rightarrow> outs \<Rightarrow> outs \<times> double \<times> double \<times> double" where
  "airy_pos M x out =
     (let t = m_sqrt M x;
          zeta = ddiv (dmul (dmul (lit 2) x) t) (lit 3);
          g = m_exp M zeta;
          t = m_sqrt M t;
          k = dmul (dmul (lit 2) t) g;
          z = ddiv (lit 1) zeta;
          f = ddiv (polevl z AN 7) (polevl z AD 7);
          out = out\<lparr>ai := Some (ddiv (dmul sqpii f) k)\<rparr>;
          k = ddiv (dmul (dmul (dneg (lit (5 / 10))) sqpii) t) g;
          f = ddiv (polevl z APN 7) (polevl z APD 7);
          out = out\<lparr>aip := Some (dmul f k)\<rparr>
      in (out, t, g, z))"

text \<open>The block under \<^verbatim>\<open>x > 8.3203353\<close>.\<close>

definition airy_pos_large :: "double \<Rightarrow> double \<Rightarrow> double \<Rightarrow> outs \<Rightarrow> outs" where
  "airy_pos_large t g z out =
     (let f = ddiv (dmul z (polevl z BN16 4)) (p1evl z BD16 5);
          k = dmul sqpii g;
          out = out\<lparr>bi := Some (ddiv (dmul k (dadd (lit 1) f)) t)\<rparr>;
          f = ddiv (dmul z (polevl z BPPN 4)) (p1evl z BPPD 5);
          out = out\<lparr>bip := Some (dmul (dmul k t) (dadd (lit 1) f))\<rparr>
      in out)"

text \<open>The locals that the two series update.\<close>

record series =
  s_uf :: double
  s_ug :: double
  s_k :: double
  s_f :: double
  s_g :: double
  s_t :: double

definition step1 :: "double \<Rightarrow> series \<Rightarrow> series" where
  "step1 z s =
     (let uf = dmul (s_uf s) z;
          k = dadd (s_k s) (lit 1);
          uf = ddiv uf k;
          ug = dmul (s_ug s) z;
          k = dadd k (lit 1);
          ug = ddiv ug k;
          uf = ddiv uf k;
          f = dadd (s_f s) uf;
          k = dadd k (lit 1);
          ug = ddiv ug k;
          g = dadd (s_g s) ug;
          t = fabs (ddiv uf f)
      in \<lparr>s_uf = uf, s_ug = ug, s_k = k, s_f = f, s_g = g, s_t = t\<rparr>)"

definition step2 :: "double \<Rightarrow> series \<Rightarrow> series" where
  "step2 z s =
     (let uf = dmul (s_uf s) z;
          ug = ddiv (s_ug s) (s_k s);
          k = dadd (s_k s) (lit 1);
          ug = dmul ug z;
          uf = ddiv uf k;
          f = dadd (s_f s) uf;
          k = dadd k (lit 1);
          ug = ddiv ug k;
          uf = ddiv uf k;
          g = dadd (s_g s) ug;
          k = dadd k (lit 1);
          t = fabs (ddiv ug g)
      in \<lparr>s_uf = uf, s_ug = ug, s_k = k, s_f = f, s_g = g, s_t = t\<rparr>)"

text \<open>
  The two statements \<^verbatim>\<open>while (t > MACHEP)\<close>. Nothing in the source bounds the number
  of iterations, so each is a partial function: \<open>None\<close> is an iteration that never ends.
\<close>

partial_function (option) loop1 :: "double \<Rightarrow> series \<Rightarrow> series option" where
  "loop1 z s = (if dgt (s_t s) MACHEP then loop1 z (step1 z s) else Some s)"

partial_function (option) loop2 :: "double \<Rightarrow> series \<Rightarrow> series option" where
  "loop2 z s = (if dgt (s_t s) MACHEP then loop2 z (step2 z s) else Some s)"

text \<open>
  The assignments before each \<^verbatim>\<open>while\<close>: the first series starts from \<open>x\<close> alone,
  the second from \<open>x\<close> and \<open>z = x * x * x\<close>.
\<close>

definition series1_init :: "double \<Rightarrow> series" where
  "series1_init x =
     \<lparr>s_uf = lit 1, s_ug = x, s_k = lit 1, s_f = lit 1, s_g = x, s_t = lit 1\<rparr>"

definition series2_init :: "double \<Rightarrow> double \<Rightarrow> series" where
  "series2_init x z =
     (let k = lit 4;
          uf = ddiv (dmul x x) (lit 2);
          ug = ddiv z (lit 3);
          f = uf;
          g = dadd (lit 1) ug;
          uf = ddiv uf (lit 3);
          t = lit 1
      in \<lparr>s_uf = uf, s_ug = ug, s_k = k, s_f = f, s_g = g, s_t = t\<rparr>)"

text \<open>The code from \<^verbatim>\<open>f = 1.0\<close> to the end of the routine.\<close>

definition airy_series :: "double \<Rightarrow> int \<Rightarrow> outs \<Rightarrow> (int \<times> outs) option" where
  "airy_series x domflg out =
     (let z = dmul (dmul x x) x
      in case loop1 z (series1_init x) of
           None \<Rightarrow> None
         | Some s1 \<Rightarrow>
             (let uf = dmul c1 (s_f s1);
                  ug = dmul c2 (s_g s1);
                  out = (if domflg AND 1 = 0 then out\<lparr>ai := Some (dsub uf ug)\<rparr> else out);
                  out = (if domflg AND 2 = 0 then out\<lparr>bi := Some (dmul sqrt3 (dadd uf ug))\<rparr> else out)
              in case loop2 z (series2_init x z) of
                   None \<Rightarrow> None
                 | Some s2 \<Rightarrow>
                     (let uf = dmul c1 (s_f s2);
                          ug = dmul c2 (s_g s2);
                          out = (if domflg AND 4 = 0 then out\<lparr>aip := Some (dsub uf ug)\<rparr> else out);
                          out = (if domflg AND 8 = 0 then out\<lparr>bip := Some (dmul sqrt3 (dadd uf ug))\<rparr> else out)
                      in Some (0, out))))"

definition airy :: "libm \<Rightarrow> double \<Rightarrow> outs \<Rightarrow> (int \<times> outs) option" where
  "airy M x out =
     (if dgt x MAXAIRY then
        Some (- 1, out\<lparr>ai := Some (lit 0), aip := Some (lit 0), bi := Some MAXNUM, bip := Some MAXNUM\<rparr>)
      else if dlt x (dneg (lit (209 / 10 ^ 2))) then Some (0, airy_neg M x out)
      else if dge x (lit (209 / 10 ^ 2)) then
        (case airy_pos M x out of (out, t, g, z) \<Rightarrow>
           if dgt x (lit (83203353 / 10 ^ 7)) then Some (0, airy_pos_large t g z out)
           else airy_series x 5 out)
      else airy_series x 0 out)"

section \<open>Auxiliary definitions\<close>

text \<open>
  The exponent of a positive rational: \<open>ilog2 r\<close> is the integer \<open>e\<close> with
  \<open>2^e \<le> r < 2^(e + 1)\<close>. It is computed on small numbers, and gives the rounding
  function an equation that evaluates quickly.
\<close>

definition ilog2 :: "rat \<Rightarrow> int" where
  "ilog2 r = (if 1 \<le> r then bitlen \<lfloor>r\<rfloor> - 1 else - bitlen (\<lceil>1 / r\<rceil> - 1))"

text \<open>The four output locations before anything is stored in them.\<close>

definition unwritten :: outs where
  "unwritten = \<lparr>ai = None, aip = None, bi = None, bip = None\<rparr>"

text \<open>The four stores of the overflow return.\<close>

definition saturated :: "outs \<Rightarrow> outs" where
  "saturated out = out\<lparr>ai := Some (lit 0), aip := Some (lit 0), bi := Some MAXNUM, bip := Some MAXNUM\<rparr>"

text \<open>
  A math library for the concrete runs below: a table that holds, at the arguments these
  runs reach, the values that the C library (glibc, on x86-64) returns there:
  \<open>sqrt 16 = 4\<close>, \<open>sqrt 4 = 2\<close>, the exponential of 42.666666666666664
  (3387645010352852480), and the sine and cosine of 43.45206483006411
  (-0.5057337750656911 and 0.8626896016284217). It is a NaN elsewhere. The general theorems
  hold for every math library; a concrete run needs one.
\<close>

definition libm_tab :: libm where
  "libm_tab =
     \<lparr>m_sqrt = (\<lambda>x. if x = Finite False 16 then Finite False 4
                     else if x = Finite False 4 then Finite False 2 else NaN),
      m_exp = (\<lambda>x. if x = Finite False (6004799503160661 / 140737488355328)
                    then Finite False 3387645010352852480 else NaN),
      m_sin = (\<lambda>x. if x = Finite False (6115334468036105 / 140737488355328)
                    then Finite True (4555244881869041 / 9007199254740992) else NaN),
      m_cos = (\<lambda>x. if x = Finite False (6115334468036105 / 140737488355328)
                    then Finite False (7770417136860323 / 9007199254740992) else NaN)\<rparr>"

text \<open>
  Claim C3 as the spec words it, for Ai: the scale factor \<open>k = 2 * t * g\<close> is taken
  with \<open>t = sqrt x\<close>, the value that \<open>t\<close> has at the start of the branch. Everything
  else is the expression of the source.
\<close>

definition spec_pos_ai :: "libm \<Rightarrow> double \<Rightarrow> double" where
  "spec_pos_ai M x =
     (let t = m_sqrt M x;
          zeta = ddiv (dmul (dmul (lit 2) x) t) (lit 3);
          g = m_exp M zeta;
          z = ddiv (lit 1) zeta;
          k = dmul (dmul (lit 2) t) g
      in ddiv (dmul sqpii (ddiv (polevl z AN 7) (polevl z AD 7))) k)"

text \<open>
  Claim C2 as the spec words it, for Ai': the scale factor \<open>k' = sqpii * t\<close> is taken
  with \<open>t = sqrt (-x)\<close>, the value that \<open>t\<close> has at the start of the branch.
  Everything else is the expression of the source.
\<close>

definition spec_neg_aip :: "libm \<Rightarrow> double \<Rightarrow> double" where
  "spec_neg_aip M x =
     (let t = m_sqrt M (dneg x);
          zeta = ddiv (dmul (dmul (dneg (lit 2)) x) t) (lit 3);
          z = ddiv (lit 1) zeta;
          zz = dmul z z;
          uf = dadd (lit 1) (ddiv (dmul zz (polevl zz APFN 8)) (p1evl zz APFD 9));
          ug = ddiv (dmul z (polevl zz APGN 10)) (p1evl zz APGD 10);
          theta = dadd zeta (dmul (lit (25 / 10 ^ 2)) PI);
          f = m_sin M theta;
          g = m_cos M theta;
          k = dmul sqpii t
      in dmul (dneg k) (dadd (dmul g uf) (dmul f ug)))"

section \<open>Definitions for the termination argument\<close>

text \<open>
  The rounding of \<open>r\<close> is a multiple of its quantum: \<open>2^-1074\<close> below \<open>2^-1021\<close>, and
  \<open>2^(e - 52)\<close> for \<open>2^e \<le> r < 2^(e + 1)\<close> above.
\<close>

definition quantum :: "rat \<Rightarrow> rat" where
  "quantum r = 2 ^ nat (bitlen \<lfloor>r * 2 ^ 1074\<rfloor> - 53) / 2 ^ 1074"

text \<open>
  The two bounds of the format, as constants: every finite double is a multiple of
  \<open>1 / UNIT\<close>, and is below \<open>HUGE\<close>.
\<close>

definition UNIT :: rat where "UNIT = 2 ^ 1074"

definition HUGE :: rat where "HUGE = 2 ^ 1024"

text \<open>
  The magnitude of a double; \<open>mag_ok\<close> says that it is not negative, \<open>posfin\<close> that the
  double is finite and not zero, \<open>unit_ok\<close> that it is within the two bounds of the format.
\<close>

fun mag :: "double \<Rightarrow> rat" where
  "mag (Finite s r) = r"
| "mag (Infinity s) = 0"
| "mag NaN = 0"

definition mag_ok :: "double \<Rightarrow> bool" where
  "mag_ok a = (case a of Finite s r \<Rightarrow> 0 \<le> r | _ \<Rightarrow> True)"

definition posfin :: "double \<Rightarrow> bool" where
  "posfin a = (case a of Finite s r \<Rightarrow> 0 < r | _ \<Rightarrow> False)"

definition unit_ok :: "double \<Rightarrow> bool" where
  "unit_ok a = (mag a < HUGE \<and> (\<exists>n::nat. mag a = of_nat n / UNIT))"

text \<open>
  On the inputs that reach the series, \<open>z = x * x * x\<close> is finite and at most \<open>Zb\<close>. From
  the counter value \<open>K0\<close> on, an iteration divides the term under test by at least two,
  since \<open>16 * Zb \<le> K0 * (K0 + 1)\<close>; a finite double can be halved 2098 times at most
  before it is zero, so the counter never passes \<open>Kmax = K0 + 3 * 2098 + 2\<close>, and all its
  values are integers that binary64 holds exactly.
\<close>

definition K0 :: nat where "K0 = 600"

definition Kmax :: nat where "Kmax = 6896"

definition Zb :: rat where "Zb = 19652"

definition zok :: "double \<Rightarrow> bool" where
  "zok z = (\<exists>s r. z = Finite s r \<and> 0 \<le> r \<and> r \<le> Zb)"

text \<open>
  The invariant of both series, on the counter \<open>k\<close> and on the term \<open>w\<close> that the exit
  test reads: the counter is an integer up to \<open>Kmax\<close>, and from \<open>K0\<close> on the term has been
  halved once for each iteration.
\<close>

definition kinv :: "double \<Rightarrow> double \<Rightarrow> bool" where
  "kinv k w = (\<exists>n. k = Finite False (of_nat n) \<and> n \<le> Kmax \<and> mag_ok w \<and>
      (K0 \<le> n \<longrightarrow> mag w * 2 ^ ((n - K0) div 3) \<le> HUGE))"

text \<open>The counter of a series state, as a number.\<close>

definition kn :: "series \<Rightarrow> nat" where
  "kn s = nat \<lfloor>mag (s_k s)\<rfloor>"

section \<open>Evaluating the rounding function\<close>

lemma bitlen_eqI: "0 \<le> b \<Longrightarrow> 2 ^ nat b \<le> n \<Longrightarrow> n < 2 ^ nat (b + 1) \<Longrightarrow> bitlen n = b + 1"
proof -
  assume b: "0 \<le> b" and lo: "2 ^ nat b \<le> n" and hi: "n < 2 ^ nat (b + 1)"
  have n0: "0 < n" using lo by (smt (verit) zero_less_power)
  from bitlen_bounds[OF n0] have A: "2 ^ nat (bitlen n - 1) \<le> n" and B: "n < 2 ^ nat (bitlen n)" by auto
  have "(2::int) ^ nat b < 2 ^ nat (bitlen n)" using lo B by linarith
  then have 1: "nat b < nat (bitlen n)" by (simp add: power_strict_increasing_iff)
  have "(2::int) ^ nat (bitlen n - 1) < 2 ^ nat (b + 1)" using A hi by linarith
  then have 2: "nat (bitlen n - 1) < nat (b + 1)" by (simp add: power_strict_increasing_iff)
  show ?thesis using 1 2 b by linarith
qed

lemma bitlen_floor_eqI:
  fixes y :: rat
  assumes "0 \<le> b" "2 ^ nat b \<le> y" "y < 2 ^ nat (b + 1)"
  shows "bitlen \<lfloor>y\<rfloor> = b + 1"
proof (rule bitlen_eqI[OF assms(1)])
  have "of_int ((2::int) ^ nat b) \<le> y" using assms(2) by simp
  then show "2 ^ nat b \<le> \<lfloor>y\<rfloor>" by (simp only: le_floor_iff)
  have "y < of_int ((2::int) ^ nat (b + 1))" using assms(3) by simp
  then show "\<lfloor>y\<rfloor> < 2 ^ nat (b + 1)" by (simp only: floor_less_iff)
qed

lemma ilog2_bounds:
  assumes "0 < r"
  shows "2 powi (ilog2 r) \<le> r" "r < 2 powi (ilog2 r + 1)"
proof -
  have "2 powi (ilog2 r) \<le> r \<and> r < 2 powi (ilog2 r + 1)"
  proof (cases "1 \<le> r")
    case True
    define n where "n = \<lfloor>r\<rfloor>"
    have n1: "1 \<le> n" using True by (simp add: n_def)
    then have n0: "0 < n" by simp
    have b1: "1 \<le> bitlen n" using n0 bitlen_nonneg[of n] bitlen_eq_zero_iff[of n] by linarith
    from bitlen_bounds[OF n0] have A: "2 ^ nat (bitlen n - 1) \<le> n" and B: "n < 2 ^ nat (bitlen n)" by auto
    have "(2::rat) ^ nat (bitlen n - 1) \<le> of_int n" using A by simp
    also have "\<dots> \<le> r" by (simp add: n_def)
    finally have L: "2 ^ nat (bitlen n - 1) \<le> r" .
    have "n + 1 \<le> 2 ^ nat (bitlen n)" using B by simp
    then have "rat_of_int (n + 1) \<le> of_int (2 ^ nat (bitlen n))" by (simp only: of_int_le_iff)
    moreover have "r < of_int (n + 1)" unfolding n_def by linarith
    ultimately have H: "r < 2 ^ nat (bitlen n)" by simp
    have e: "ilog2 r = bitlen n - 1" using True by (simp add: ilog2_def n_def)
    show ?thesis using L H b1 by (simp add: e power_int_nonneg_exp)
  next
    case False
    define s where "s = 1 / r"
    have s1: "1 < s" using False assms by (simp add: s_def)
    define c where "c = \<lceil>s\<rceil> - 1"
    have c1: "1 \<le> c" using s1 unfolding c_def by (smt (verit) less_ceiling_iff of_int_1)
    then have c0: "0 < c" by simp
    have cs: "of_int c < s" unfolding c_def by linarith
    have sc: "s \<le> of_int (c + 1)" unfolding c_def by simp
    have b1: "1 \<le> bitlen c" using c0 bitlen_nonneg[of c] bitlen_eq_zero_iff[of c] by linarith
    from bitlen_bounds[OF c0] have A: "2 ^ nat (bitlen c - 1) \<le> c" and B: "c < 2 ^ nat (bitlen c)" by auto
    have "(2::rat) ^ nat (bitlen c - 1) \<le> of_int c" using A by simp
    then have L: "2 ^ nat (bitlen c - 1) < s" using cs by linarith
    have "c + 1 \<le> 2 ^ nat (bitlen c)" using B by simp
    then have "rat_of_int (c + 1) \<le> of_int (2 ^ nat (bitlen c))" by (simp only: of_int_le_iff)
    then have H: "s \<le> 2 ^ nat (bitlen c)" using sc by simp
    have e: "ilog2 r = - bitlen c" using False by (simp add: ilog2_def c_def s_def)
    have r: "r = 1 / s" using assms by (simp add: s_def)
    have p1: "(2::rat) powi (- bitlen c) = 1 / 2 ^ nat (bitlen c)"
      using b1 by (simp add: power_int_minus_divide power_int_nonneg_exp)
    have p2: "(2::rat) powi (- bitlen c + 1) = 1 / 2 ^ nat (bitlen c - 1)"
    proof -
      have "- bitlen c + 1 = - (bitlen c - 1)" by simp
      then show ?thesis using b1 by (simp only: power_int_minus_divide) (simp add: power_int_nonneg_exp)
    qed
    have "1 / 2 ^ nat (bitlen c) \<le> 1 / s" using H s1 by (simp add: frac_le)
    then have X: "2 powi (- bitlen c) \<le> r" unfolding p1 r .
    have "1 / s < 1 / 2 ^ nat (bitlen c - 1)" using L s1 by (simp add: frac_less2)
    then have Y: "r < 2 powi (- bitlen c + 1)" unfolding p2 r .
    show ?thesis unfolding e using X Y by simp
  qed
  then show "2 powi (ilog2 r) \<le> r" "r < 2 powi (ilog2 r + 1)" by auto
qed

lemma rnd_unit_gen:
  fixes r :: rat
  assumes r: "0 < r" and lo: "2 powi e \<le> r" and hi: "r < 2 powi (e + 1)" and p: "0 \<le> p"
  shows "2 ^ nat (bitlen \<lfloor>r * 2 ^ N\<rfloor> - p) / 2 ^ N = (2::rat) powi (max (e + int N + 1 - p) 0 - int N)"
proof (cases "- int N \<le> e")
  case True
  define b where "b = e + int N"
  have b0: "0 \<le> b" using True by (simp add: b_def)
  have pN: "(2::rat) ^ N = 2 powi (int N)" by simp
  have pb: "(2::rat) ^ nat b = 2 powi e * 2 ^ N"
  proof -
    have "(2::rat) ^ nat b = 2 powi b" using b0 by (simp add: power_int_nonneg_exp)
    also have "\<dots> = 2 powi e * 2 powi (int N)" unfolding b_def by (simp add: power_int_add)
    finally show ?thesis by simp
  qed
  have pb1: "(2::rat) ^ nat (b + 1) = 2 powi (e + 1) * 2 ^ N"
  proof -
    have eq: "b + 1 = (e + 1) + int N" by (simp add: b_def)
    have "(2::rat) ^ nat (b + 1) = 2 powi (b + 1)" using b0 by (simp add: power_int_nonneg_exp)
    also have "\<dots> = 2 powi (e + 1) * 2 powi (int N)" unfolding eq by (simp add: power_int_add)
    finally show ?thesis by simp
  qed
  have "bitlen \<lfloor>r * 2 ^ N\<rfloor> = b + 1"
  proof (rule bitlen_floor_eqI[OF b0])
    show "2 ^ nat b \<le> r * 2 ^ N" unfolding pb using lo by simp
    show "r * 2 ^ N < 2 ^ nat (b + 1)" unfolding pb1 using hi by simp
  qed
  then have sh: "bitlen \<lfloor>r * 2 ^ N\<rfloor> - p = e + int N + 1 - p" by (simp add: b_def)
  have "(2::rat) ^ nat (e + int N + 1 - p) = 2 powi (max (e + int N + 1 - p) 0)"
    by (cases "0 \<le> e + int N + 1 - p") (simp_all add: power_int_nonneg_exp max_def)
  moreover have "(2::rat) powi (max (e + int N + 1 - p) 0 - int N) = 2 powi (max (e + int N + 1 - p) 0) / 2 powi (int N)"
    by (simp add: power_int_diff)
  ultimately show ?thesis unfolding sh by simp
next
  case False
  then have e: "e + 1 \<le> - int N" by simp
  have "(2::rat) powi (e + 1) \<le> 2 powi (- int N)" using e by (intro power_int_increasing) auto
  then have "r < 2 powi (- int N)" using hi by simp
  then have "r * 2 ^ N < 1" by (simp add: power_int_minus_divide field_simps)
  moreover have "0 \<le> r * 2 ^ N" using r by simp
  ultimately have z: "\<lfloor>r * 2 ^ N\<rfloor> = 0" by (simp add: floor_unique)
  have "max (e + int N + 1 - p) 0 - int N = - int N" using e p by simp
  then show ?thesis unfolding z using p by (simp add: power_int_minus_divide)
qed

lemma rnd_unit:
  fixes r :: rat
  assumes r: "0 < r" and lo: "2 powi e \<le> r" and hi: "r < 2 powi (e + 1)"
  shows "2 ^ nat (bitlen \<lfloor>r * 2 ^ 1074\<rfloor> - 53) / 2 ^ 1074 = (2::rat) powi (max e (- 1022) - 52)"
proof -
  have "max (e + int 1074 + 1 - 53) 0 - int 1074 = max e (- 1022) - 52" by simp
  then show ?thesis using rnd_unit_gen[OF assms, of 53 1074] by simp
qed

lemma rnd_fast:
  "0 < r \<Longrightarrow> rnd r = (let q = 2 powi (max (ilog2 r) (- 1022) - 52) in of_int (rhe (r / q)) * q)"
  using rnd_unit[OF _ ilog2_bounds, of r] by (simp add: rnd_def Let_def)

lemma bitlen_numeral: "bitlen (numeral n) = bitlen (numeral n div 2) + 1"
  by (subst compute_bitlen) simp

lemma bitlen_one: "bitlen 1 = 1"
  by (subst compute_bitlen) simp

lemma floor_rat_numeral: "\<lfloor>(numeral a :: rat) / numeral b\<rfloor> = numeral a div numeral b"
  using floor_divide_of_int_eq[of "numeral a" "numeral b", where ?'a = rat] by simp

lemma ceiling_rat_numeral: "\<lceil>(numeral a :: rat) / numeral b\<rceil> = - (- numeral a div numeral b)"
  using ceiling_divide_eq_div[of "numeral a" "numeral b", where ?'a = rat] by simp

lemma rnd_fast':
  "0 < r \<Longrightarrow> rnd r = of_int (rhe (r / 2 powi (max (ilog2 r) (- 1022) - 52))) * 2 powi (max (ilog2 r) (- 1022) - 52)"
  by (simp add: rnd_fast Let_def)

lemma rnd_zero: "rnd 0 = 0"
  by (simp add: rnd_def rhe_def)

lemmas dbl_eval = lit_def round_double_def rnd_fast' rnd_zero ilog2_def rhe_def Let_def
  bitlen_numeral bitlen_one floor_rat_numeral ceiling_rat_numeral

section \<open>Bounds and exact cases of the rounding\<close>

lemma rhe_nonneg: "0 \<le> y \<Longrightarrow> 0 \<le> rhe y"
  by (auto simp: rhe_def Let_def)

lemma rhe_of_int: "rhe (of_int k) = k"
  by (simp add: rhe_def)

lemma rhe_le2: 
  assumes y: "0 \<le> y" shows "of_int (rhe y) \<le> 2 * y"
proof -
  define k where "k = \<lfloor>y\<rfloor>"
  have k0: "0 \<le> k" using y by (simp add: k_def)
  have ky: "of_int k \<le> y" by (simp add: k_def)
  show ?thesis
  proof (cases "k = 0")
    case True
    then show ?thesis using y ky by (auto simp: rhe_def Let_def k_def[symmetric])
  next
    case False
    then have "1 \<le> k" using k0 by simp
    then have "(1::rat) \<le> of_int k" by simp
    then have "of_int (k + 1) \<le> 2 * y" using ky by simp
    moreover have "rhe y \<le> k + 1" by (auto simp: rhe_def Let_def k_def[symmetric])
    ultimately show ?thesis
      by (meson of_int_le_iff order_trans)
  qed
qed

lemma rnd_quantum: "rnd r = of_int (rhe (r / quantum r)) * quantum r"
  by (simp add: rnd_def quantum_def Let_def)

lemma quantum_pos: "0 < quantum r"
  unfolding quantum_def by (intro divide_pos_pos zero_less_power) simp_all

lemma rnd_nonneg: "0 \<le> r \<Longrightarrow> 0 \<le> rnd r"
  unfolding rnd_quantum using quantum_pos[of r] rhe_nonneg[of "r / quantum r"] by simp

lemma rnd_le2: 
  assumes "0 \<le> r" shows "rnd r \<le> 2 * r"
proof -
  have "0 \<le> r / quantum r" using assms quantum_pos[of r] by simp
  from rhe_le2[OF this] have "of_int (rhe (r / quantum r)) * quantum r \<le> 2 * (r / quantum r) * quantum r"
    using quantum_pos[of r] by (intro mult_right_mono) simp_all
  then show ?thesis unfolding rnd_quantum using quantum_pos[of r] by simp
qed

lemma UNIT_pos: "0 < UNIT" by (simp add: UNIT_def)

lemma HUGE_pos: "0 < HUGE" by (simp add: HUGE_def)

lemma round_double_alt:
  "round_double s r = (if HUGE \<le> rnd r then Infinity s else Finite s (rnd r))"
  by (simp add: round_double_def HUGE_def)

lemma rnd_units:
  assumes "0 \<le> r" shows "\<exists>n::nat. rnd r = of_nat n / UNIT"
proof -
  define j where "j = nat (bitlen \<lfloor>r * 2 ^ 1074\<rfloor> - 53)"
  define m where "m = nat (rhe (r / quantum r))"
  have m: "of_int (rhe (r / quantum r)) = (of_nat m :: rat)"
    using rhe_nonneg[of "r / quantum r"] assms quantum_pos[of r] by (simp add: m_def)
  have "rnd r = of_nat (m * 2 ^ j) / UNIT"
    unfolding rnd_quantum m UNIT_def by (simp add: quantum_def j_def)
  then show ?thesis by blast
qed

lemma quantum_eq:
  assumes "0 < r" "2 powi e \<le> r" "r < 2 powi (e + 1)"
  shows "quantum r = 2 powi (max e (- 1022) - 52)"
  unfolding quantum_def by (rule rnd_unit[OF assms])

lemma rnd_exactI:
  assumes r: "0 < r" and lo: "2 powi e \<le> r" and hi: "r < 2 powi (e + 1)"
    and m: "r = of_int m * 2 powi (max e (- 1022) - 52)"
  shows "rnd r = r"
proof -
  have q: "quantum r = 2 powi (max e (- 1022) - 52)" by (rule quantum_eq[OF r lo hi])
  have "r / quantum r = of_int m" unfolding q by (subst m) simp
  then show ?thesis unfolding rnd_quantum by (simp add: rhe_of_int q m[symmetric])
qed

lemma rnd_of_nat:
  assumes n: "n \<le> 2 ^ 53"
  shows "rnd (of_nat n) = of_nat n"
proof (cases "n = 0")
  case True
  then show ?thesis by (simp add: rnd_zero)
next
  case False
  define r :: rat where "r = of_nat n"
  have r1: "1 \<le> r" using False by (simp add: r_def)
  then have r0: "0 < r" by simp
  define e where "e = ilog2 r"
  have lo: "2 powi e \<le> r" and hi: "r < 2 powi (e + 1)" using ilog2_bounds[OF r0] by (simp_all add: e_def)
  have e0: "0 \<le> e"
  proof (rule ccontr)
    assume "\<not> 0 \<le> e"
    then have "e + 1 \<le> 0" by simp
    then have "(2::rat) powi (e + 1) \<le> 2 powi 0" by (intro power_int_increasing) auto
    then show False using hi r1 by simp
  qed
  have r53: "r \<le> 2 ^ 53" unfolding r_def using n by (metis of_nat_le_iff of_nat_numeral of_nat_power)
  have e53: "e \<le> 53"
  proof (rule ccontr)
    assume "\<not> e \<le> 53"
    then have "54 \<le> e" by simp
    then have "(2::rat) powi 54 \<le> 2 powi e" by (intro power_int_increasing) auto
    then show False using lo r53 by simp
  qed
  have mx: "max e (- 1022) - 52 = e - 52" using e0 by simp
  show ?thesis
  proof (cases "e \<le> 52")
    case True
    define j where "j = nat (52 - e)"
    have j: "(2::rat) powi (e - 52) = 1 / 2 ^ j"
    proof -
      have "e - 52 = - int j" using True by (simp add: j_def)
      then show ?thesis by (simp add: power_int_minus_divide)
    qed
    have "r = of_int (int n * 2 ^ j) * 2 powi (max e (- 1022) - 52)"
      unfolding mx j by (simp add: r_def)
    from rnd_exactI[OF r0 lo hi this] show ?thesis by (simp add: r_def)
  next
    case False
    then have e: "e = 53" using e53 by simp
    have "r = 2 ^ 53" using lo r53 unfolding e by simp
    then have "r = of_int (2 ^ 52) * 2 powi (max e (- 1022) - 52)" unfolding e by simp
    from rnd_exactI[OF r0 lo hi this] show ?thesis by (simp add: r_def)
  qed
qed

lemma round_double_cases:
  assumes "0 \<le> r"
  obtains (inf) "round_double s r = Infinity s"
  | (fin) v where "round_double s r = Finite s v" "0 \<le> v" "v \<le> 2 * r" "v < HUGE"
      "\<exists>n::nat. v = of_nat n / UNIT"
proof (cases "HUGE \<le> rnd r")
  case True
  then show ?thesis using inf by (simp add: round_double_alt)
next
  case False
  then show ?thesis
    using fin[of "rnd r"] rnd_nonneg[OF assms] rnd_le2[OF assms] rnd_units[OF assms]
    by (simp add: round_double_alt)
qed

lemma HUGE_53: "2 ^ 53 < HUGE"
  by (simp add: HUGE_def)

lemma lit_nat: 
  assumes n: "n \<le> 2 ^ 53" shows "lit (of_nat n) = Finite False (of_nat n)"
proof -
  have "(of_nat n :: rat) \<le> 2 ^ 53" using n by (metis of_nat_le_iff of_nat_numeral of_nat_power)
  then have "\<not> HUGE \<le> of_nat n" using HUGE_53 by linarith
  then show ?thesis by (simp add: lit_def round_double_alt rnd_of_nat[OF n])
qed

lemma lit_1: "lit 1 = Finite False 1"
  using lit_nat[of 1] by simp

lemma k_incr:
  assumes "n + 1 \<le> 2 ^ 53"
  shows "dadd (Finite False (of_nat n)) (lit 1) = Finite False (of_nat (n + 1))"
proof -
  have v: "valof (Finite False (of_nat n)) + valof (Finite False 1) = of_nat (n + 1)" by simp
  have nz: "(of_nat (n + 1) :: rat) \<noteq> 0" by (simp del: of_nat_add)
  have ab: "\<bar>of_nat (n + 1) :: rat\<bar> = of_nat (n + 1)" by (simp only: abs_of_nat)
  have ng: "\<not> (of_nat (n + 1) :: rat) < 0" by (simp del: of_nat_add)
  have "dadd (Finite False (of_nat n)) (lit 1) = round_double False (of_nat (n + 1))"
    unfolding lit_1 dadd.simps v Let_def using nz ab ng by simp
  also have "\<dots> = lit (of_nat (n + 1))" by (simp only: lit_def)
  finally show ?thesis using lit_nat[OF assms] by simp
qed

section \<open>The thresholds of the routine\<close>

lemma MAXAIRY_val: "MAXAIRY = Finite False (7253610149833605 / 281474976710656)"
  by (simp add: MAXAIRY_def dbl_eval)

lemma lit_2_09: "lit (209 / 100) = Finite False (588282701325271 / 281474976710656)"
  by (simp add: dbl_eval)

lemma lit_8_32: "lit (83203353 / 10000000) = Finite False (2341966184792349 / 281474976710656)"
  by (simp add: dbl_eval)

lemma lit_0: "lit 0 = Finite False 0"
  by (simp add: lit_def round_double_def rnd_def rhe_def)

lemma airy_series_status:
  "airy_series x d out = Some (st, out') \<Longrightarrow> st = 0"
  by (auto simp: airy_series_def Let_def split: option.splits)

lemma outs_all_written:
  "out\<lparr>ai := a, aip := b, bi := c, bip := d\<rparr> = \<lparr>ai = a, aip = b, bi = c, bip = d\<rparr>"
  by (cases out) simp

section \<open>Termination of the two series\<close>

lemma MACHEP_val: "MACHEP = Finite False (1 / 9007199254740992)"
  by (simp add: MACHEP_def dbl_eval)

lemma mag_ok_round: "0 \<le> r \<Longrightarrow> mag_ok (round_double s r)"
  by (erule round_double_cases[of r s]) (simp_all add: mag_ok_def)

lemma round_double_posfin:
  assumes "0 \<le> r" "posfin (round_double s r)"
  shows "mag (round_double s r) \<le> 2 * r" "unit_ok (round_double s r)"
  using assms(2) by (rule_tac [!] round_double_cases[OF assms(1), of s]) (auto simp: posfin_def unit_ok_def)

lemma round_double_zero: "round_double s 0 = Finite s 0"
  by (simp add: round_double_alt rnd_zero HUGE_pos not_le)

lemma mag_ok_dmul: "mag_ok a \<Longrightarrow> mag_ok b \<Longrightarrow> mag_ok (dmul a b)"
  by (cases a; cases b) (auto simp: mag_ok_def[of "Finite _ _"] mag_ok_def[of NaN] mag_ok_def[of "Infinity _"] intro: mag_ok_round)

lemma mag_ok_ddiv: "mag_ok a \<Longrightarrow> mag_ok b \<Longrightarrow> mag_ok (ddiv a b)"
  by (cases a; cases b) (auto simp: mag_ok_def[of "Finite _ _"] mag_ok_def[of NaN] mag_ok_def[of "Infinity _"] intro: mag_ok_round)

lemma dmul_posfin:
  assumes "mag_ok a" "mag_ok b" "posfin (dmul a b)"
  shows "posfin a" "mag (dmul a b) \<le> 2 * mag a * mag b" "unit_ok (dmul a b)"
proof -
  obtain s r s' r' where ab: "a = Finite s r" "b = Finite s' r'"
    using assms(3) by (cases a; cases b) (auto simp: posfin_def split: if_splits)
  have r: "0 \<le> r" "0 \<le> r'" using assms(1,2) by (simp_all add: ab mag_ok_def)
  then have rr: "0 \<le> r * r'" by simp
  have p: "posfin (round_double (s \<noteq> s') (r * r'))" using assms(3) by (simp add: ab)
  have "r \<noteq> 0"
  proof
    assume "r = 0"
    then show False using p by (simp add: round_double_zero posfin_def)
  qed
  then show "posfin a" using r by (simp add: ab posfin_def)
  show "mag (dmul a b) \<le> 2 * mag a * mag b"
    using round_double_posfin(1)[OF rr p] by (simp add: ab mult.assoc)
  show "unit_ok (dmul a b)" using round_double_posfin(2)[OF rr p] by (simp add: ab)
qed

lemma ddiv_posfin:
  assumes "mag_ok a" "0 < c" "posfin (ddiv a (Finite sc c))"
  shows "posfin a" "mag (ddiv a (Finite sc c)) \<le> 2 * mag a / c" "unit_ok (ddiv a (Finite sc c))"
proof -
  obtain s r where a: "a = Finite s r"
    using assms(3) by (cases a) (auto simp: posfin_def split: if_splits)
  have r: "0 \<le> r" using assms(1) by (simp add: a mag_ok_def)
  then have rr: "0 \<le> r / c" using assms(2) by simp
  have p: "posfin (round_double (s \<noteq> sc) (r / c))" using assms(2,3) by (simp add: a)
  have "r \<noteq> 0"
  proof
    assume "r = 0"
    then show False using p by (simp add: round_double_zero posfin_def)
  qed
  then show "posfin a" using r by (simp add: a posfin_def)
  show "mag (ddiv a (Finite sc c)) \<le> 2 * mag a / c"
    using round_double_posfin(1)[OF rr p] assms(2) by (simp add: a)
  show "unit_ok (ddiv a (Finite sc c))" using round_double_posfin(2)[OF rr p] assms(2) by (simp add: a)
qed

lemma not_posfin_cases:
  assumes "mag_ok u" "\<not> posfin u"
  obtains s where "u = Finite s 0" | s where "u = Infinity s" | "u = NaN"
  using assms by (cases u) (auto simp: mag_ok_def posfin_def)

lemma ratio_zero: "\<not> dgt (fabs (ddiv (Finite s 0) b)) MACHEP"
proof (cases b)
  case (Finite s' r')
  then show ?thesis by (simp add: dgt_def MACHEP_val round_double_zero)
qed (simp_all add: dgt_def MACHEP_val)

lemma ratio_terminal:
  assumes "mag_ok u" "\<not> posfin u"
  shows "\<not> dgt (fabs (ddiv u (dadd f u))) MACHEP"
  using assms
proof (cases rule: not_posfin_cases)
  case (1 s)
  then show ?thesis by (simp add: ratio_zero)
next
  case (2 s)
  then show ?thesis by (cases f) (simp_all add: dgt_def MACHEP_val)
next
  case 3
  then show ?thesis by (cases f) (simp_all add: dgt_def MACHEP_val)
qed

lemma HUGE_UNIT: "HUGE * UNIT = 2 ^ 2098"
  by (simp add: HUGE_def UNIT_def)

lemma posfin_unit_ge: 
  assumes "posfin a" "unit_ok a" shows "1 / UNIT \<le> mag a"
proof -
  obtain n :: nat where n: "mag a = of_nat n / UNIT" using assms(2) by (auto simp: unit_ok_def)
  have "0 < mag a" using assms(1) by (cases a) (simp_all add: posfin_def)
  then have "0 < (of_nat n :: rat)" using UNIT_pos by (simp add: n zero_less_divide_iff)
  then have "1 \<le> n" by simp
  then have "(1::rat) \<le> of_nat n" by (metis of_nat_1 of_nat_le_iff)
  then show ?thesis unfolding n using UNIT_pos by (simp add: divide_right_mono)
qed

lemma pow_bound:
  assumes "1 / UNIT \<le> m" "m * 2 ^ j \<le> HUGE"
  shows "j \<le> 2098"
proof -
  have "1 / UNIT * 2 ^ j \<le> m * 2 ^ j" using assms(1) by (intro mult_right_mono) simp_all
  then have "1 / UNIT * 2 ^ j \<le> HUGE" using assms(2) by simp
  then have "2 ^ j \<le> HUGE * UNIT" using UNIT_pos by (simp add: field_simps)
  then have X: "(2::rat) ^ j \<le> 2 ^ 2098" by (simp only: HUGE_UNIT)
  have "1 < (2::rat)" by simp
  from power_le_imp_le_exp[OF this X] show ?thesis .
qed

lemma kinv_step:
  assumes inv: "kinv (Finite False (of_nat n)) w"
    and z: "zok z"
    and w': "posfin w'" "unit_ok w'" "mag_ok w'"
    and bound: "mag w' \<le> 8 * mag w * mag z / (of_nat (n + a) * of_nat (n + b))"
    and ab: "a \<le> 3" "1 \<le> b" "b \<le> 3" "a < b"
  shows "kinv (Finite False (of_nat (n + 3))) w'"
proof -
  from inv have n: "n \<le> Kmax" and wok: "mag_ok w" 
    and pot: "K0 \<le> n \<longrightarrow> mag w * 2 ^ ((n - K0) div 3) \<le> HUGE"
    unfolding kinv_def by (auto dest: of_nat_eq_iff[THEN iffD1])
  obtain sz rz where zz: "z = Finite sz rz" "0 \<le> rz" "rz \<le> Zb" using z by (auto simp: zok_def)
  have w0: "0 \<le> mag w" using wok by (cases w) (simp_all add: mag_ok_def)
  have ge: "1 / UNIT \<le> mag w'" by (rule posfin_unit_ge[OF w'(1,2)])
  have lt: "mag w' < HUGE" using w'(2) by (simp add: unit_ok_def)
  have pot': "mag w' * 2 ^ ((n + 3 - K0) div 3) \<le> HUGE" if k: "K0 \<le> n + 3"
  proof (cases "K0 \<le> n")
    case False
    then have "(n + 3 - K0) div 3 = 0" using k by simp
    then show ?thesis using lt by simp
  next
    case True
    have j: "(n + 3 - K0) div 3 = Suc ((n - K0) div 3)" using True by simp
    have nn: "(600::rat) \<le> of_nat n" using True unfolding K0_def by (metis of_nat_le_iff of_nat_numeral)
    have den: "(16::rat) * Zb \<le> of_nat (n + a) * of_nat (n + b)"
    proof -
      have "(of_nat n :: rat) * of_nat (n + 1) \<le> of_nat (n + a) * of_nat (n + b)"
        using ab by (intro mult_mono) simp_all
      moreover have "(600::rat) * 601 \<le> of_nat n * of_nat (n + 1)"
        using nn by (intro mult_mono) simp_all
      ultimately show ?thesis by (simp add: Zb_def)
    qed
    have dpos: "(0::rat) < of_nat (n + a) * of_nat (n + b)" using den by (simp add: Zb_def)
    have "8 * mag w * mag z / (of_nat (n + a) * of_nat (n + b)) \<le> mag w / 2"
    proof -
      have "16 * rz \<le> of_nat (n + a) * of_nat (n + b)" using den zz(3) by simp
      then have "mag w * (16 * rz) \<le> mag w * (of_nat (n + a) * of_nat (n + b))"
        using w0 by (rule mult_left_mono)
      then show ?thesis using dpos by (simp add: zz field_simps)
    qed
    then have "mag w' \<le> mag w / 2" using bound by simp
    then have "mag w' * 2 ^ Suc ((n - K0) div 3) \<le> (mag w / 2) * 2 ^ Suc ((n - K0) div 3)"
      by (intro mult_right_mono) simp_all
    also have "\<dots> = mag w * 2 ^ ((n - K0) div 3)" by simp
    also have "\<dots> \<le> HUGE" using pot True by simp
    finally show ?thesis unfolding j .
  qed
  have n3: "n + 3 \<le> Kmax"
  proof (cases "K0 \<le> n + 3")
    case False
    then show ?thesis by (simp add: K0_def Kmax_def)
  next
    case True
    from pow_bound[OF ge pot'[OF True]] have "(n + 3 - K0) div 3 \<le> 2098" .
    then show ?thesis using True by (simp add: K0_def Kmax_def)
  qed
  show ?thesis unfolding kinv_def
  proof (intro exI[of _ "n + 3"] conjI impI)
    show "K0 \<le> n + 3 \<Longrightarrow> mag w' * 2 ^ ((n + 3 - K0) div 3) \<le> HUGE" by (rule pot')
  qed (use n3 w'(3) in simp_all)
qed

lemma ddiv_posfin':
  assumes "mag_ok a" "0 \<le> c" "posfin (ddiv a (Finite sc c))"
  shows "posfin a" "mag (ddiv a (Finite sc c)) \<le> 2 * mag a / c" "unit_ok (ddiv a (Finite sc c))"
proof -
  have "c \<noteq> 0"
  proof
    assume "c = 0"
    then show False using assms(3) by (cases a) (auto simp: posfin_def split: if_splits)
  qed
  then have c: "0 < c" using assms(2) by simp
  show "posfin a" "mag (ddiv a (Finite sc c)) \<le> 2 * mag a / c" "unit_ok (ddiv a (Finite sc c))"
    using ddiv_posfin[OF assms(1) c assms(3)] by simp_all
qed

lemma mag_ok_nat: "mag_ok (Finite False (of_nat n))"
  by (simp add: mag_ok_def)

lemma Kmax_53: "n \<le> Kmax \<Longrightarrow> n + 3 \<le> 2 ^ 53"
  by (simp add: Kmax_def)

lemma kinv_counter:
  assumes "kinv k w"
  obtains n where "k = Finite False (of_nat n)" "n \<le> Kmax" "mag_ok w"
    "dadd (Finite False (of_nat n)) (lit 1) = Finite False (of_nat (n + 1))"
    "dadd (Finite False (of_nat (n + 1))) (lit 1) = Finite False (of_nat (n + 2))"
    "dadd (Finite False (of_nat (n + 2))) (lit 1) = Finite False (of_nat (n + 3))"
proof -
  from assms obtain n where n: "k = Finite False (of_nat n)" "n \<le> Kmax" "mag_ok w"
    unfolding kinv_def by blast
  have b: "n + 1 \<le> 2 ^ 53" "n + 1 + 1 \<le> 2 ^ 53" "n + 2 + 1 \<le> 2 ^ 53"
    using Kmax_53[OF n(2)] by simp_all
  have e: "n + 1 + 1 = n + 2" "n + 2 + 1 = n + 3" by simp_all
  show ?thesis using that[OF n k_incr[OF b(1)] k_incr[OF b(2), unfolded e] k_incr[OF b(3), unfolded e]] .
qed

lemma zok_mag_ok: "zok z \<Longrightarrow> mag_ok z"
  by (auto simp: zok_def mag_ok_def)

lemma step1_progress:
  assumes inv: "kinv (s_k s) (s_uf s)" and z: "zok z"
  shows "\<not> dgt (s_t (step1 z s)) MACHEP \<or> kinv (s_k (step1 z s)) (s_uf (step1 z s))"
proof -
  from inv obtain n where n: "s_k s = Finite False (of_nat n)" "n \<le> Kmax" "mag_ok (s_uf s)"
    and k1: "dadd (Finite False (of_nat n)) (lit 1) = Finite False (of_nat (n + 1))"
    and k2: "dadd (Finite False (of_nat (n + 1))) (lit 1) = Finite False (of_nat (n + 2))"
    and k3: "dadd (Finite False (of_nat (n + 2))) (lit 1) = Finite False (of_nat (n + 3))"
    by (rule kinv_counter)
  define u1 where "u1 = dmul (s_uf s) z"
  define u2 where "u2 = ddiv u1 (Finite False (of_nat (n + 1)))"
  define u3 where "u3 = ddiv u2 (Finite False (of_nat (n + 2)))"
  have uf': "s_uf (step1 z s) = u3"
    and k': "s_k (step1 z s) = Finite False (of_nat (n + 3))"
    and t': "s_t (step1 z s) = fabs (ddiv u3 (dadd (s_f s) u3))"
    by (simp_all only: step1_def Let_def n(1) k1 k2 k3 u1_def u2_def u3_def series.simps)
  have ok1: "mag_ok u1" unfolding u1_def by (intro mag_ok_dmul n(3) zok_mag_ok[OF z])
  have ok2: "mag_ok u2" unfolding u2_def by (intro mag_ok_ddiv ok1 mag_ok_nat)
  have ok3: "mag_ok u3" unfolding u3_def by (intro mag_ok_ddiv ok2 mag_ok_nat)
  show ?thesis
  proof (cases "posfin u3")
    case False
    then show ?thesis unfolding t' using ratio_terminal[OF ok3] by simp
  next
    case True
    have p3: "posfin (ddiv u2 (Finite False (of_nat (n + 2))))" using True by (simp add: u3_def)
    note d3 = ddiv_posfin'[OF ok2 _ p3]
    have p2: "posfin (ddiv u1 (Finite False (of_nat (n + 1))))" using d3(1) by (simp add: u2_def)
    note d2 = ddiv_posfin'[OF ok1 _ p2]
    have p1: "posfin (dmul (s_uf s) z)" using d2(1) by (simp add: u1_def)
    note d1 = dmul_posfin[OF n(3) zok_mag_ok[OF z] p1]
    have b3: "mag u3 \<le> 2 * mag u2 / of_nat (n + 2)" using d3(2) by (simp add: u3_def)
    have b2: "mag u2 \<le> 2 * mag u1 / of_nat (n + 1)" using d2(2) by (simp add: u2_def)
    have b1: "mag u1 \<le> 2 * mag (s_uf s) * mag z" using d1(2) by (simp add: u1_def)
    define q1 :: rat where "q1 = of_nat (n + 1)"
    define q2 :: rat where "q2 = of_nat (n + 2)"
    have p: "0 < q1" "0 < q2" by (simp_all add: q1_def q2_def)
    have "2 * mag u1 / q1 \<le> 2 * (2 * mag (s_uf s) * mag z) / q1"
      using b1 p(1) by (intro divide_right_mono mult_left_mono) simp_all
    then have "mag u2 \<le> 2 * (2 * mag (s_uf s) * mag z) / q1"
      using b2 unfolding q1_def[symmetric] by (rule order_trans[rotated])
    then have "2 * mag u2 / q2 \<le> 2 * (2 * (2 * mag (s_uf s) * mag z) / q1) / q2"
      using p(2) by (intro divide_right_mono mult_left_mono) simp_all
    then have "mag u3 \<le> 2 * (2 * (2 * mag (s_uf s) * mag z) / q1) / q2"
      using b3 unfolding q2_def[symmetric] by (rule order_trans[rotated])
    also have "\<dots> = 8 * mag (s_uf s) * mag z / (q1 * q2)" by simp
    finally have bound: "mag u3 \<le> 8 * mag (s_uf s) * mag z / (of_nat (n + 1) * of_nat (n + 2))"
      unfolding q1_def q2_def .
    have u: "unit_ok u3" using d3(3) by (simp add: u3_def)
    have "kinv (Finite False (of_nat (n + 3))) u3"
      by (rule kinv_step[OF inv[unfolded n(1)] z True u ok3 bound]) simp_all
    then show ?thesis unfolding uf' k' by (rule disjI2)
  qed
qed

lemma step2_progress:
  assumes inv: "kinv (s_k s) (s_ug s)" and z: "zok z"
  shows "\<not> dgt (s_t (step2 z s)) MACHEP \<or> kinv (s_k (step2 z s)) (s_ug (step2 z s))"
proof -
  from inv obtain n where n: "s_k s = Finite False (of_nat n)" "n \<le> Kmax" "mag_ok (s_ug s)"
    and k1: "dadd (Finite False (of_nat n)) (lit 1) = Finite False (of_nat (n + 1))"
    and k2: "dadd (Finite False (of_nat (n + 1))) (lit 1) = Finite False (of_nat (n + 2))"
    and k3: "dadd (Finite False (of_nat (n + 2))) (lit 1) = Finite False (of_nat (n + 3))"
    by (rule kinv_counter)
  define u1 where "u1 = ddiv (s_ug s) (Finite False (of_nat n))"
  define u2 where "u2 = dmul u1 z"
  define u3 where "u3 = ddiv u2 (Finite False (of_nat (n + 2)))"
  have ug': "s_ug (step2 z s) = u3"
    and k': "s_k (step2 z s) = Finite False (of_nat (n + 3))"
    and t': "s_t (step2 z s) = fabs (ddiv u3 (dadd (s_g s) u3))"
    by (simp_all only: step2_def Let_def n(1) k1 k2 k3 u1_def u2_def u3_def series.simps)
  have ok1: "mag_ok u1" unfolding u1_def by (intro mag_ok_ddiv n(3) mag_ok_nat)
  have ok2: "mag_ok u2" unfolding u2_def by (intro mag_ok_dmul ok1 zok_mag_ok[OF z])
  have ok3: "mag_ok u3" unfolding u3_def by (intro mag_ok_ddiv ok2 mag_ok_nat)
  show ?thesis
  proof (cases "posfin u3")
    case False
    then show ?thesis unfolding t' using ratio_terminal[OF ok3] by simp
  next
    case True
    have p3: "posfin (ddiv u2 (Finite False (of_nat (n + 2))))" using True by (simp add: u3_def)
    note d3 = ddiv_posfin'[OF ok2 _ p3]
    have p2: "posfin (dmul u1 z)" using d3(1) by (simp add: u2_def)
    note d2 = dmul_posfin[OF ok1 zok_mag_ok[OF z] p2]
    have p1: "posfin (ddiv (s_ug s) (Finite False (of_nat n)))" using d2(1) by (simp add: u1_def)
    note d1 = ddiv_posfin'[OF n(3) _ p1]
    have b3: "mag u3 \<le> 2 * mag u2 / of_nat (n + 2)" using d3(2) by (simp add: u3_def)
    have b2: "mag u2 \<le> 2 * mag u1 * mag z" using d2(2) by (simp add: u2_def)
    have b1: "mag u1 \<le> 2 * mag (s_ug s) / of_nat n" using d1(2) by (simp add: u1_def)
    define q1 :: rat where "q1 = of_nat n"
    define q2 :: rat where "q2 = of_nat (n + 2)"
    have p: "0 \<le> q1" "0 < q2" by (simp_all add: q1_def q2_def)
    have z0: "0 \<le> mag z" using z by (auto simp: zok_def)
    have "2 * mag u1 * mag z \<le> 2 * (2 * mag (s_ug s) / q1) * mag z"
      using b1 z0 unfolding q1_def[symmetric] by (intro mult_right_mono mult_left_mono) simp_all
    then have "mag u2 \<le> 2 * (2 * mag (s_ug s) / q1) * mag z"
      using b2 by (rule order_trans[rotated])
    then have "2 * mag u2 / q2 \<le> 2 * (2 * (2 * mag (s_ug s) / q1) * mag z) / q2"
      using p(2) by (intro divide_right_mono mult_left_mono) simp_all
    then have "mag u3 \<le> 2 * (2 * (2 * mag (s_ug s) / q1) * mag z) / q2"
      using b3 unfolding q2_def[symmetric] by (rule order_trans[rotated])
    also have "\<dots> = 8 * mag (s_ug s) * mag z / (q1 * q2)" by simp
    finally have bound: "mag u3 \<le> 8 * mag (s_ug s) * mag z / (of_nat (n + 0) * of_nat (n + 2))"
      unfolding q1_def q2_def by simp
    have u: "unit_ok u3" using d3(3) by (simp add: u3_def)
    have "kinv (Finite False (of_nat (n + 3))) u3"
      by (rule kinv_step[OF inv[unfolded n(1)] z True u ok3 bound]) simp_all
    then show ?thesis unfolding ug' k' by (rule disjI2)
  qed
qed

lemma kinv_kn: "kinv (s_k s) w \<Longrightarrow> kn s \<le> Kmax \<and> s_k s = Finite False (of_nat (kn s))"
  by (auto simp: kinv_def kn_def)

lemma step1_kn: 
  assumes "kinv (s_k s) w" shows "kn (step1 z s) = kn s + 3"
proof -
  from assms obtain n where n: "s_k s = Finite False (of_nat n)" "n \<le> Kmax" 
    and k1: "dadd (Finite False (of_nat n)) (lit 1) = Finite False (of_nat (n + 1))"
    and k2: "dadd (Finite False (of_nat (n + 1))) (lit 1) = Finite False (of_nat (n + 2))"
    and k3: "dadd (Finite False (of_nat (n + 2))) (lit 1) = Finite False (of_nat (n + 3))"
    by (rule kinv_counter)
  have "s_k (step1 z s) = Finite False (of_nat (n + 3))"
    by (simp only: step1_def Let_def n(1) k1 k2 k3 series.simps)
  then show ?thesis by (simp add: kn_def n(1))
qed

lemma step2_kn: 
  assumes "kinv (s_k s) w" shows "kn (step2 z s) = kn s + 3"
proof -
  from assms obtain n where n: "s_k s = Finite False (of_nat n)" "n \<le> Kmax" 
    and k1: "dadd (Finite False (of_nat n)) (lit 1) = Finite False (of_nat (n + 1))"
    and k2: "dadd (Finite False (of_nat (n + 1))) (lit 1) = Finite False (of_nat (n + 2))"
    and k3: "dadd (Finite False (of_nat (n + 2))) (lit 1) = Finite False (of_nat (n + 3))"
    by (rule kinv_counter)
  have "s_k (step2 z s) = Finite False (of_nat (n + 3))"
    by (simp only: step2_def Let_def n(1) k1 k2 k3 series.simps)
  then show ?thesis by (simp add: kn_def n(1))
qed

lemma loop1_terminates:
  assumes "kinv (s_k s) (s_uf s)" "zok z"
  shows "\<exists>r. loop1 z s = Some r"
  using assms(1)
proof (induction "Kmax + 3 - kn s" arbitrary: s rule: less_induct)
  case less
  show ?case
  proof (cases "dgt (s_t s) MACHEP")
    case False
    then show ?thesis by (subst loop1.simps) simp
  next
    case True
    then have eq: "loop1 z s = loop1 z (step1 z s)" by (subst loop1.simps) simp
    from step1_progress[OF less.prems assms(2)] show ?thesis
    proof
      assume "\<not> dgt (s_t (step1 z s)) MACHEP"
      then show ?thesis unfolding eq by (subst loop1.simps) simp
    next
      assume inv': "kinv (s_k (step1 z s)) (s_uf (step1 z s))"
      have "Kmax + 3 - kn (step1 z s) < Kmax + 3 - kn s"
        using step1_kn[OF less.prems, of z] kinv_kn[OF less.prems] by linarith
      from less.hyps[OF this inv'] show ?thesis unfolding eq .
    qed
  qed
qed

lemma loop2_terminates:
  assumes "kinv (s_k s) (s_ug s)" "zok z"
  shows "\<exists>r. loop2 z s = Some r"
  using assms(1)
proof (induction "Kmax + 3 - kn s" arbitrary: s rule: less_induct)
  case less
  show ?case
  proof (cases "dgt (s_t s) MACHEP")
    case False
    then show ?thesis by (subst loop2.simps) simp
  next
    case True
    then have eq: "loop2 z s = loop2 z (step2 z s)" by (subst loop2.simps) simp
    from step2_progress[OF less.prems assms(2)] show ?thesis
    proof
      assume "\<not> dgt (s_t (step2 z s)) MACHEP"
      then show ?thesis unfolding eq by (subst loop2.simps) simp
    next
      assume inv': "kinv (s_k (step2 z s)) (s_ug (step2 z s))"
      have "Kmax + 3 - kn (step2 z s) < Kmax + 3 - kn s"
        using step2_kn[OF less.prems, of z] kinv_kn[OF less.prems] by linarith
      from less.hyps[OF this inv'] show ?thesis unfolding eq .
    qed
  qed
qed

section \<open>The series on the domain of the routine\<close>

lemma round_double_small:
  assumes "0 \<le> r" "2 * r < HUGE"
  obtains v where "round_double s r = Finite s v" "0 \<le> v" "v \<le> 2 * r"
proof -
  have "\<not> HUGE \<le> rnd r" using rnd_le2[OF assms(1)] assms(2) by linarith
  then have "round_double s r = Finite s (rnd r)" by (simp add: round_double_alt)
  then show ?thesis using that rnd_nonneg[OF assms(1)] rnd_le2[OF assms(1)] by blast
qed

lemma HUGE_big: "(40000::rat) < HUGE"
  by (simp add: HUGE_def)

lemma cube_zok:
  assumes "0 \<le> r" "r \<le> 17"
  shows "zok (dmul (dmul (Finite s r) (Finite s r)) (Finite s r))"
proof -
  have rr: "0 \<le> r * r" "r * r \<le> 17 * 17" using assms by (simp, intro mult_mono) simp_all
  then have "2 * (r * r) < HUGE" using HUGE_big by linarith
  from round_double_small[OF rr(1) this, of False] obtain v
    where v: "round_double False (r * r) = Finite False v" "0 \<le> v" "v \<le> 2 * (r * r)" by blast
  have vr: "0 \<le> v * r" using v(2) assms(1) by simp
  have "v \<le> 578" using v(3) rr(2) by simp
  then have "v * r \<le> 578 * 17" using assms v(2) by (intro mult_mono) simp_all
  then have b: "2 * (v * r) \<le> Zb" by (simp add: Zb_def mult.commute)
  then have "2 * (v * r) < HUGE" using HUGE_big unfolding Zb_def by linarith
  from round_double_small[OF vr this, of s] obtain w
    where w: "round_double s (v * r) = Finite s w" "0 \<le> w" "w \<le> 2 * (v * r)" by blast
  have "dmul (dmul (Finite s r) (Finite s r)) (Finite s r) = Finite s w"
    by (simp add: v(1) w(1))
  then show ?thesis unfolding zok_def using w b by auto
qed

lemma domain_mag:
  assumes "mag_ok x" "dge x (dneg (lit (209 / 100)))" "dle x (lit (83203353 / 10000000))"
  obtains s r where "x = Finite s r" "0 \<le> r" "r \<le> 17"
  using assms by (cases x) (auto simp: mag_ok_def dge_def lit_2_09 lit_8_32 split: if_splits)

lemma kinv_init1: "kinv (s_k (series1_init x)) (s_uf (series1_init x))"
  unfolding kinv_def series1_init_def
  by (intro exI[of _ 1]) (simp add: lit_1 K0_def Kmax_def mag_ok_def)

lemma lit_3: "lit 3 = Finite False 3" using lit_nat[of 3] by simp
lemma lit_4: "lit 4 = Finite False 4" using lit_nat[of 4] by simp

lemma kinv_init2: 
  assumes "zok z" shows "kinv (s_k (series2_init x z)) (s_ug (series2_init x z))"
proof -
  have "mag_ok (ddiv z (lit 3))" 
    by (intro mag_ok_ddiv zok_mag_ok[OF assms]) (simp add: lit_3 mag_ok_def)
  then show ?thesis
    unfolding kinv_def series2_init_def Let_def
    by (intro exI[of _ 4]) (simp add: lit_4 K0_def Kmax_def)
qed

lemma series_terminates:
  assumes "mag_ok x" "dge x (dneg (lit (209 / 100)))" "dle x (lit (83203353 / 10000000))"
  shows "\<exists>s1. loop1 (dmul (dmul x x) x) (series1_init x) = Some s1"
    and "\<exists>s2. loop2 (dmul (dmul x x) x) (series2_init x (dmul (dmul x x) x)) = Some s2"
proof -
  from assms obtain s r where x: "x = Finite s r" "0 \<le> r" "r \<le> 17" by (rule domain_mag)
  have z: "zok (dmul (dmul x x) x)" unfolding x(1) by (rule cube_zok[OF x(2,3)])
  show "\<exists>s1. loop1 (dmul (dmul x x) x) (series1_init x) = Some s1"
    by (rule loop1_terminates[OF kinv_init1 z])
  show "\<exists>s2. loop2 (dmul (dmul x x) x) (series2_init x (dmul (dmul x x) x)) = Some s2"
    by (rule loop2_terminates[OF kinv_init2[OF z] z])
qed

lemma airy_series_returns:
  assumes "mag_ok x" "dge x (dneg (lit (209 / 100)))" "dle x (lit (83203353 / 10000000))"
  shows "\<exists>out'. airy_series x d out = Some (0, out')"
  using series_terminates[OF assms] by (auto simp: airy_series_def Let_def)

lemma is_double_mag_ok: "is_double x \<Longrightarrow> mag_ok x"
  by (cases x) (simp_all add: is_double_def mag_ok_def)

lemma loop1_exit:
  assumes "loop1 z s = Some r" shows "\<not> dgt (s_t r) MACHEP"
  by (rule loop1.raw_induct[where P = "\<lambda>z s r. \<not> dgt (s_t r) MACHEP", OF _ assms])
    (auto split: if_splits)

lemma loop2_exit:
  assumes "loop2 z s = Some r" shows "\<not> dgt (s_t r) MACHEP"
  by (rule loop2.raw_induct[where P = "\<lambda>z s r. \<not> dgt (s_t r) MACHEP", OF _ assms])
    (auto split: if_splits)

lemma domain_no_branch:
  assumes "dge x (dneg (lit (209 / 100)))" "dle x (lit (83203353 / 10000000))"
  shows "\<not> dgt x MAXAIRY" "\<not> dlt x (dneg (lit (209 / 100)))" "\<not> dgt x (lit (83203353 / 10000000))"
  using assms by (cases x; auto simp: dge_def dgt_def lit_2_09 lit_8_32 MAXAIRY_val split: if_splits)+

lemma airy_on_domain:
  assumes "dge x (dneg (lit (209 / 100)))" "dle x (lit (83203353 / 10000000))"
  shows "airy M x out = 
    (if dge x (lit (209 / 100)) then airy_series x 5 (fst (airy_pos M x out)) else airy_series x 0 out)"
  using domain_no_branch[OF assms] by (simp add: airy_def split: prod.splits)

lemma is_double_nat: "n \<le> 2 ^ 53 \<Longrightarrow> is_double (Finite False (of_nat n))"
proof -
  assume n: "n \<le> 2 ^ 53"
  have "(of_nat n :: rat) \<le> 2 ^ 53" using n by (metis of_nat_le_iff of_nat_numeral of_nat_power)
  then have "(of_nat n :: rat) < 2 ^ 1024" by (rule order_le_less_trans) simp
  then show ?thesis using rnd_of_nat[OF n] by (simp add: is_double_def)
qed

lemma is_double_1: "is_double (Finite False 1)" using is_double_nat[of 1] by simp
lemma is_double_3: "is_double (Finite False 3)" using is_double_nat[of 3] by simp
lemma is_double_9: "is_double (Finite False 9)" using is_double_nat[of 9] by simp

section \<open>Values of the literals\<close>

lemma sqpii_val: "sqpii = Finite False (5081767996463981 / 9007199254740992)"
  by (simp add: sqpii_def dbl_eval)

lemma PI_val: "PI = Finite False (884279719003555 / 281474976710656)"
  by (simp add: PI_def dbl_eval)

lemma c1_val: "c1 = Finite False (799452105597623 / 2251799813685248)"
  by (simp add: c1_def dbl_eval)

lemma c2_val: "c2 = Finite False (4662475881910155 / 18014398509481984)"
  by (simp add: c2_def dbl_eval)

lemma sqrt3_val: "sqrt3 = Finite False (3900231685776981 / 2251799813685248)"
  by (simp add: sqrt3_def dbl_eval)

lemma lit_2: "lit 2 = Finite False 2"
  using lit_nat[of 2] by simp

lemma lit_half: "lit (1 / 2) = Finite False (1 / 2)"
  by (simp add: dbl_eval)

lemma lit_quarter: "lit (1 / 4) = Finite False (1 / 4)"
  by (simp add: dbl_eval)

lemmas lit_small = lit_0 lit_1 lit_2 lit_3 lit_4 lit_half lit_quarter

section \<open>The branches of the routine\<close>

lemma lit_2_09_ge: "dge x (lit (209 / 100)) \<Longrightarrow> dge x (dneg (lit (209 / 100)))"
  by (cases x) (auto simp: dge_def lit_2_09 split: if_splits)

lemma airy_neg_written:
  "ai (airy_neg M x out) \<noteq> None \<and> aip (airy_neg M x out) \<noteq> None \<and>
   bi (airy_neg M x out) \<noteq> None \<and> bip (airy_neg M x out) \<noteq> None"
  by (simp add: airy_neg_def Let_def)

lemma airy_pos_written:
  "ai (fst (airy_pos M x out)) \<noteq> None \<and> aip (fst (airy_pos M x out)) \<noteq> None \<and>
   bi (fst (airy_pos M x out)) = bi out \<and> bip (fst (airy_pos M x out)) = bip out"
  by (simp add: airy_pos_def Let_def)

lemma airy_pos_large_written:
  "ai (airy_pos_large t g z out) = ai out \<and> aip (airy_pos_large t g z out) = aip out \<and>
   bi (airy_pos_large t g z out) \<noteq> None \<and> bip (airy_pos_large t g z out) \<noteq> None"
  by (simp add: airy_pos_large_def Let_def)

lemma airy_series_frame:
  assumes "airy_series x d out = Some (st, out')"
  shows "(if d AND 1 = 0 then ai out' \<noteq> None else ai out' = ai out) \<and>
         (if d AND 2 = 0 then bi out' \<noteq> None else bi out' = bi out) \<and>
         (if d AND 4 = 0 then aip out' \<noteq> None else aip out' = aip out) \<and>
         (if d AND 8 = 0 then bip out' \<noteq> None else bip out' = bip out)"
  using assms by (auto simp: airy_series_def Let_def split: option.splits if_splits)

lemma airy_pos_fall:
  assumes "is_double x" "dge x (lit (209 / 100))" "dle x (lit (83203353 / 10000000))"
  shows "\<exists>s1 s2.
      loop1 (dmul (dmul x x) x) (series1_init x) = Some s1 \<and>
      loop2 (dmul (dmul x x) x) (series2_init x (dmul (dmul x x) x)) = Some s2 \<and>
      airy M x out = Some (0, (fst (airy_pos M x out))
         \<lparr>bi := Some (dmul sqrt3 (dadd (dmul c1 (s_f s1)) (dmul c2 (s_g s1)))),
          bip := Some (dmul sqrt3 (dadd (dmul c1 (s_f s2)) (dmul c2 (s_g s2))))\<rparr>)"
proof -
  have m: "mag_ok x" by (rule is_double_mag_ok[OF assms(1)])
  have lo: "dge x (dneg (lit (209 / 100)))" using assms(2) by (rule lit_2_09_ge)
  from series_terminates[OF m lo assms(3)] obtain s1 s2 where
    s: "loop1 (dmul (dmul x x) x) (series1_init x) = Some s1"
       "loop2 (dmul (dmul x x) x) (series2_init x (dmul (dmul x x) x)) = Some s2" by blast
  have "airy M x out = airy_series x 5 (fst (airy_pos M x out))"
    using airy_on_domain[OF lo assms(3)] assms(2) by simp
  also have "\<dots> = Some (0, (fst (airy_pos M x out))
         \<lparr>bi := Some (dmul sqrt3 (dadd (dmul c1 (s_f s1)) (dmul c2 (s_g s1)))),
          bip := Some (dmul sqrt3 (dadd (dmul c1 (s_f s2)) (dmul c2 (s_g s2))))\<rparr>)"
    by (simp add: airy_series_def Let_def s)
  finally show ?thesis using s by simp
qed

lemma airy_pos_direct:
  assumes "dge x (lit (209 / 100))" "dle x MAXAIRY" "dgt x (lit (83203353 / 10000000))"
  shows "airy M x out =
     Some (0, case airy_pos M x out of (out1, t, g, z) \<Rightarrow> airy_pos_large t g z out1)"
proof -
  have n1: "\<not> dgt x MAXAIRY" 
    using assms(2) by (cases x) (auto simp: dgt_def MAXAIRY_val split: if_splits)
  have n2: "\<not> dlt x (dneg (lit (209 / 100)))" 
    using assms(1) by (cases x) (auto simp: dge_def lit_2_09 split: if_splits)
  show ?thesis using n1 n2 assms(1,3) by (simp add: airy_def split: prod.splits)
qed

lemma not_gt_le:
  assumes "dge x (lit (209 / 100))" "\<not> dgt x (lit (83203353 / 10000000))"
  shows "dle x (lit (83203353 / 10000000))"
  using assms by (cases x) (auto simp: dgt_def dge_def lit_2_09 lit_8_32 split: if_splits)

lemma airy_pos_keeps:
  assumes "is_double x" "dge x (lit (209 / 100))" "dle x MAXAIRY"
  shows "\<exists>out'. airy M x out = Some (0, out') \<and> ai out' = ai (fst (airy_pos M x out)) \<and>
     aip out' = aip (fst (airy_pos M x out))"
proof (cases "dgt x (lit (83203353 / 10000000))")
  case True
  show ?thesis unfolding airy_pos_direct[OF assms(2,3) True]
    using airy_pos_large_written by (auto split: prod.splits)
next
  case False
  from airy_pos_fall[OF assms(1,2) not_gt_le[OF assms(2) False], of M out]
  show ?thesis by auto
qed

lemma airy_pos_ai:
  "ai (fst (airy_pos M x out)) =
     Some (let t = m_sqrt M x;
               zeta = ddiv (dmul (dmul (lit 2) x) t) (lit 3);
               g = m_exp M zeta;
               t = m_sqrt M t;
               z = ddiv (lit 1) zeta;
               k = dmul (dmul (lit 2) t) g
           in ddiv (dmul sqpii (ddiv (polevl z AN 7) (polevl z AD 7))) k)"
  by (simp add: airy_pos_def Let_def)

lemma airy_neg_aip:
  "aip (airy_neg M x out) =
     Some (let t = m_sqrt M (dneg x);
               zeta = ddiv (dmul (dmul (dneg (lit 2)) x) t) (lit 3);
               t = m_sqrt M t;
               z = ddiv (lit 1) zeta;
               zz = dmul z z;
               uf = dadd (lit 1) (ddiv (dmul zz (polevl zz APFN 8)) (p1evl zz APFD 9));
               ug = ddiv (dmul z (polevl zz APGN 10)) (p1evl zz APGD 10);
               theta = dadd zeta (dmul (lit (25 / 10 ^ 2)) PI);
               f = m_sin M theta;
               g = m_cos M theta;
               k = dmul sqpii t
           in dmul (dneg k) (dadd (dmul g uf) (dmul f ug)))"
  by (simp add: airy_neg_def Let_def)

section \<open>Concrete runs\<close>

text \<open>
  The runs at \<open>x = 16\<close>, \<open>x = -16\<close> and \<open>x = 0\<close>, evaluated in the model. Every
  value below is the one that binary64 arithmetic gives.
\<close>

lemma AN_16: "polevl (Finite False (3 / 128)) AN 7 = (Finite False (6168130338106299 / 4503599627370496))"
  by (simp add: polevl_def evalPoly_def horner_def AN_def dbl_eval)

lemma AD_16: "polevl (Finite False (3 / 128)) AD 7 = (Finite False (6178062677624499 / 4503599627370496))"
  by (simp add: polevl_def evalPoly_def horner_def AD_def dbl_eval)

lemma airy_16_ai: "map_option (ai \<circ> snd) (airy M (Finite False 16) out) = Some (ai (fst (airy_pos M (Finite False 16) out)))"
  using airy_pos_large_written
  by (simp add: airy_def dgt_def dge_def MAXAIRY_val lit_2_09 lit_8_32 split: prod.splits)

lemma pos_16_ai: "ai (fst (airy_pos libm_tab (Finite False 16) unwritten)) = Some (Finite False (1726704064613155 / 41538374868278621028243970633760768))"
  unfolding airy_pos_ai
  by (simp add: Let_def libm_tab_def lit_small AN_16 AD_16 sqpii_val dbl_eval)

lemma APFN_16: "polevl (Finite False (9 / 16384)) APFN 8 = (Finite False (4103466124717367 / 151115727451828646838272))"
  by (simp add: polevl_def evalPoly_def horner_def APFN_def dbl_eval)

lemma APFD_16: "p1evl (Finite False (9 / 16384)) APFD 9 = (Finite False (1462158079062145 / 2361183241434822606848))"
  by (simp add: p1evl_def evalPoly1_def horner_def APFD_def dbl_eval)

lemma APGN_16: "polevl (Finite False (9 / 16384)) APGN 10 = (Finite True (6195670820374707 / 9671406556917033397649408))"
  by (simp add: polevl_def evalPoly_def horner_def APGN_def dbl_eval)

lemma APGD_16: "p1evl (Finite False (9 / 16384)) APGD 10 = (Finite False (7967771052168421 / 1208925819614629174706176))"
  by (simp add: p1evl_def evalPoly1_def horner_def APGD_def dbl_eval)

lemma airy_m16_aip:
  "map_option (aip \<circ> snd) (airy M (Finite True 16) out) = Some (aip (airy_neg M (Finite True 16) out))"
  by (simp add: airy_def dgt_def MAXAIRY_val lit_2_09)

lemma neg_16_aip: "aip (airy_neg libm_tab (Finite True 16) unwritten) = Some (Finite True (8779897552119121 / 9007199254740992))"
  unfolding airy_neg_aip
  by (simp add: Let_def libm_tab_def lit_small APFN_16 APFD_16 APGN_16 APGD_16 sqpii_val PI_val dbl_eval)

lemma loop1_zero:
  "loop1 (Finite False 0) (series1_init (Finite False 0)) =
     Some \<lparr>s_uf = Finite False 0, s_ug = Finite False 0, s_k = Finite False 4,
            s_f = Finite False 1, s_g = Finite False 0, s_t = Finite False 0\<rparr>"
  apply (subst loop1.simps)
  apply (simp add: series1_init_def step1_def lit_small MACHEP_val dgt_def dbl_eval)
  apply (subst loop1.simps)
  apply (simp add: MACHEP_val dgt_def)
  done

lemma loop2_zero:
  "loop2 (Finite False 0) (series2_init (Finite False 0) (Finite False 0)) =
     Some \<lparr>s_uf = Finite False 0, s_ug = Finite False 0, s_k = Finite False 7,
            s_f = Finite False 0, s_g = Finite False 1, s_t = Finite False 0\<rparr>"
  apply (subst loop2.simps)
  apply (simp add: series2_init_def step2_def lit_small MACHEP_val dgt_def dbl_eval)
  apply (subst loop2.simps)
  apply (simp add: MACHEP_val dgt_def)
  done

section \<open>The overflow return\<close>

text \<open>
  Claim C1. Whenever \<open>x > 25.77\<close> holds (for every finite \<open>x\<close>, and for plus infinity too),
  the routine returns the status -1 with Ai = 0, Ai' = 0, Bi = MAXNUM and Bi' = MAXNUM.
  This is the only return with status -1: a call that returns has status -1 exactly when
  \<open>x > 25.77\<close>, and status 0 otherwise. At \<open>x = 25.77\<close> itself the routine runs the
  branch \<open>x \<ge> 2.09\<close> with its block \<open>x > 8.3203353\<close> and returns the status 0.
\<close>

theorem airy_overflow_boundary:
  "(dgt x MAXAIRY \<longrightarrow> airy M x out = Some (- 1, saturated out)) \<and>
   (airy M x out = Some (st, out') \<longrightarrow>
      (st = - 1 \<longleftrightarrow> dgt x MAXAIRY) \<and> (st = 0 \<longleftrightarrow> \<not> dgt x MAXAIRY)) \<and>
   airy M MAXAIRY out =
     (case airy_pos M MAXAIRY out of (out1, t, g, z) \<Rightarrow> Some (0, airy_pos_large t g z out1))"
proof (intro conjI impI)
  show "airy M MAXAIRY out =
     (case airy_pos M MAXAIRY out of (out1, t, g, z) \<Rightarrow> Some (0, airy_pos_large t g z out1))"
    by (simp add: airy_def MAXAIRY_val lit_2_09 lit_8_32 dgt_def dge_def split: prod.splits)
qed (auto simp: airy_def saturated_def split: if_splits prod.splits dest: airy_series_status)

theorem airy_overflow_boundary_witness:
  "dgt (Finite False 26) MAXAIRY \<and>
   airy libm_tab (Finite False 26) unwritten = Some (- 1, saturated unwritten) \<and>
   \<not> dgt MAXAIRY MAXAIRY \<and>
   (\<exists>out'. airy libm_tab MAXAIRY unwritten = Some (0, out'))"
proof -
  have g: "dgt (Finite False 26) MAXAIRY" by (simp add: dgt_def MAXAIRY_val)
  have n: "\<not> dgt MAXAIRY MAXAIRY" by (simp add: dgt_def MAXAIRY_val)
  show ?thesis
    using g n airy_overflow_boundary[of "Finite False 26" libm_tab unwritten "- 1" "saturated unwritten"]
      airy_overflow_boundary[of MAXAIRY libm_tab unwritten]
    by (auto split: prod.splits)
qed

text \<open>
  Claim C10. For the input plus infinity the test \<open>x > 25.77\<close> succeeds: the routine
  returns at once with the status -1, Ai = 0, Ai' = 0, Bi = MAXNUM and Bi' = MAXNUM, whatever
  the math library is, so neither an asymptotic branch nor a series is entered.
\<close>

theorem airy_plus_infinity:
  "airy M (Infinity False) out = Some (- 1, saturated out)"
  by (simp add: airy_def saturated_def dgt_def MAXAIRY_val)

theorem airy_plus_infinity_witness:
  "airy libm_tab (Infinity False) unwritten =
     Some (- 1, \<lparr>ai = Some (lit 0), aip = Some (lit 0), bi = Some MAXNUM, bip = Some MAXNUM\<rparr>)"
  using airy_plus_infinity[of libm_tab unwritten] by (simp add: saturated_def unwritten_def)

section \<open>Determinism\<close>

text \<open>
  Claim C9. The routine is a function of its argument alone: the result of a call (the
  status and the four outputs, or the failure to return) does not depend on what the four
  output locations hold before the call. The coefficient tables are constants, the locals
  live in the call, and the math library is a function.
\<close>

theorem airy_deterministic:
  "airy M x out = airy M x out'"
  by (auto simp: airy_def airy_neg_def airy_pos_def airy_pos_large_def airy_series_def Let_def
      outs_all_written split: option.splits prod.splits)

theorem airy_deterministic_witness:
  "airy libm_tab (Finite False 26) unwritten = airy libm_tab (Finite False 26) (saturated unwritten)"
  using airy_deterministic[of libm_tab "Finite False 26" unwritten "saturated unwritten"] by simp

section \<open>Ai' and Bi' in the negative branch\<close>

text \<open>
  Claim C2, amended. For every \<open>x < -2.09\<close>, with \<open>t = sqrt (-x)\<close>,
  \<open>zeta = -2 * x * t / 3\<close>, \<open>z = 1 / zeta\<close>, \<open>zz = z * z\<close>,
  \<open>uf = 1 + zz * polevl(zz, APFN) / p1evl(zz, APFD)\<close>,
  \<open>ug = z * polevl(zz, APGN) / p1evl(zz, APGD)\<close>, \<open>theta = zeta + 0.25 * PI\<close>,
  \<open>f = sin theta\<close> and \<open>g = cos theta\<close>, the routine returns the status 0 with
  Ai' = -k' * (g * uf + f * ug) and Bi' = k' * (f * uf - g * ug), where \<open>k' = sqpii * t'\<close>
  is taken with \<open>t' = sqrt t\<close>, the fourth root of \<open>-x\<close>: the routine assigns
  \<open>t = sqrt(t)\<close> before it computes \<open>k'\<close>.
\<close>

theorem neg_branch_derivatives:
  assumes "dlt x (dneg (lit (209 / 10 ^ 2)))"
  shows "let t = m_sqrt M (dneg x);
             zeta = ddiv (dmul (dmul (dneg (lit 2)) x) t) (lit 3);
             z = ddiv (lit 1) zeta;
             zz = dmul z z;
             uf = dadd (lit 1) (ddiv (dmul zz (polevl zz APFN 8)) (p1evl zz APFD 9));
             ug = ddiv (dmul z (polevl zz APGN 10)) (p1evl zz APGD 10);
             theta = dadd zeta (dmul (lit (25 / 10 ^ 2)) PI);
             f = m_sin M theta;
             g = m_cos M theta;
             k' = dmul sqpii (m_sqrt M t)
         in \<exists>out'. airy M x out = Some (0, out') \<and>
              aip out' = Some (dmul (dneg k') (dadd (dmul g uf) (dmul f ug))) \<and>
              bip out' = Some (dmul k' (dsub (dmul f uf) (dmul g ug)))"
proof -
  have d: "dlt x (dneg (lit (209 / 100)))" using assms by simp
  then have n: "\<not> dgt x MAXAIRY"
    by (cases x) (auto simp: dgt_def MAXAIRY_val lit_2_09 split: if_splits)
  show ?thesis using d n by (simp add: airy_def airy_neg_def Let_def)
qed

theorem neg_branch_derivatives_witness:
  "dlt (Finite True 16) (dneg (lit (209 / 10 ^ 2))) \<and>
   (\<exists>out'. airy libm_tab (Finite True 16) unwritten = Some (0, out') \<and>
      aip out' = Some (Finite True (8779897552119121 / 9007199254740992)))"
proof -
  have h: "dlt (Finite True 16) (dneg (lit (209 / 10 ^ 2)))" by (simp add: lit_2_09)
  have e: "map_option (aip \<circ> snd) (airy libm_tab (Finite True 16) unwritten) = Some (Some (Finite True (8779897552119121 / 9007199254740992)))"
    using airy_m16_aip[of libm_tab unwritten] neg_16_aip by simp
  show ?thesis
    using neg_branch_derivatives[OF h, of libm_tab unwritten] h e
    by (auto simp: Let_def)
qed

text \<open>
  The claim as the spec words it takes \<open>k'\<close> with \<open>t = sqrt (-x)\<close>. At \<open>x = -16\<close> the
  routine stores Ai' = -0.9747644416212699, while the formula of the claim gives twice as
  much, -1.9495288832425397.
\<close>

theorem neg_branch_counterexample:
  "dlt (Finite True 16) (dneg (lit (209 / 10 ^ 2))) \<and>
   map_option (aip \<circ> snd) (airy libm_tab (Finite True 16) unwritten) =
     Some (Some (Finite True (8779897552119121 / 9007199254740992))) \<and>
   spec_neg_aip libm_tab (Finite True 16) = (Finite True (8779897552119121 / 4503599627370496)) \<and>
   map_option (aip \<circ> snd) (airy libm_tab (Finite True 16) unwritten) \<noteq>
     Some (Some (spec_neg_aip libm_tab (Finite True 16)))"
proof -
  have 1: "dlt (Finite True 16) (dneg (lit (209 / 10 ^ 2)))"
    by (simp add: lit_2_09)
  note 2 = neg_16_aip
  have 3: "spec_neg_aip libm_tab (Finite True 16) = (Finite True (8779897552119121 / 4503599627370496))"
    unfolding spec_neg_aip_def
    by (simp add: Let_def libm_tab_def lit_small APFN_16 APFD_16 APGN_16 APGD_16 sqpii_val PI_val dbl_eval)
  show ?thesis using 1 by (simp add: airy_m16_aip 2 3)
qed

section \<open>Ai and Ai' in the positive branch\<close>

text \<open>
  Claim C3, amended. For every double \<open>x\<close> with \<open>2.09 \<le> x \<le> 25.77\<close>, with
  \<open>t = sqrt x\<close>, \<open>zeta = 2 * x * t / 3\<close>, \<open>g = exp zeta\<close> and \<open>z = 1 / zeta\<close>, the routine
  returns the status 0 with Ai = sqpii * (polevl(z, AN) / polevl(z, AD)) / k and
  Ai' = (polevl(z, APN) / polevl(z, APD)) * k'', where \<open>k = 2 * t' * g\<close> and
  \<open>k'' = -0.5 * sqpii * t' / g\<close> are taken with \<open>t' = sqrt t\<close>, the fourth root of \<open>x\<close>:
  the routine assigns \<open>t = sqrt(t)\<close> before it computes \<open>k\<close>.
\<close>

theorem pos_branch_ai:
  assumes "is_double x" "dge x (lit (209 / 10 ^ 2))" "dle x MAXAIRY"
  shows "let t = m_sqrt M x;
             zeta = ddiv (dmul (dmul (lit 2) x) t) (lit 3);
             g = m_exp M zeta;
             z = ddiv (lit 1) zeta;
             t' = m_sqrt M t;
             k = dmul (dmul (lit 2) t') g;
             k'' = ddiv (dmul (dmul (dneg (lit (5 / 10))) sqpii) t') g
         in \<exists>out'. airy M x out = Some (0, out') \<and>
              ai out' = Some (ddiv (dmul sqpii (ddiv (polevl z AN 7) (polevl z AD 7))) k) \<and>
              aip out' = Some (dmul (ddiv (polevl z APN 7) (polevl z APD 7)) k'')"
proof -
  have d: "dge x (lit (209 / 100))" using assms(2) by simp
  from airy_pos_keeps[OF assms(1) d assms(3), of M out] show ?thesis
    by (simp add: airy_pos_def Let_def)
qed

theorem pos_branch_ai_witness:
  "is_double (Finite False 16) \<and> dge (Finite False 16) (lit (209 / 10 ^ 2)) \<and>
   dle (Finite False 16) MAXAIRY \<and>
   (\<exists>out'. airy libm_tab (Finite False 16) unwritten = Some (0, out') \<and>
      ai out' = Some (Finite False (1726704064613155 / 41538374868278621028243970633760768)))"
proof -
  have i: "is_double (Finite False 16)" using is_double_nat[of 16] by simp
  have h: "dge (Finite False 16) (lit (209 / 10 ^ 2))" "dle (Finite False 16) MAXAIRY"
    by (simp_all add: dge_def lit_2_09 MAXAIRY_val)
  have e: "ai (fst (airy_pos libm_tab (Finite False 16) unwritten)) = Some (Finite False (1726704064613155 / 41538374868278621028243970633760768))"
    using airy_16_ai[of libm_tab unwritten] pos_16_ai by simp
  show ?thesis
    using pos_branch_ai[OF i h, of libm_tab unwritten] i h e[unfolded airy_pos_ai]
    by (auto simp: Let_def)
qed

text \<open>
  The claim as the spec words it takes \<open>k\<close> with \<open>t = sqrt x\<close>. At \<open>x = 16\<close> the routine
  stores Ai = 4.1568888289170346e-20, while the formula of the claim gives half of it,
  2.0784444144585173e-20.
\<close>

theorem pos_branch_counterexample:
  "dge (Finite False 16) (lit (209 / 10 ^ 2)) \<and> dle (Finite False 16) MAXAIRY \<and>
   map_option (ai \<circ> snd) (airy libm_tab (Finite False 16) unwritten) =
     Some (Some (Finite False (1726704064613155 / 41538374868278621028243970633760768))) \<and>
   spec_pos_ai libm_tab (Finite False 16) = (Finite False (1726704064613155 / 83076749736557242056487941267521536)) \<and>
   map_option (ai \<circ> snd) (airy libm_tab (Finite False 16) unwritten) \<noteq>
     Some (Some (spec_pos_ai libm_tab (Finite False 16)))"
proof -
  have 1: "dge (Finite False 16) (lit (209 / 10 ^ 2))" "dle (Finite False 16) MAXAIRY"
    by (simp_all add: dge_def lit_2_09 MAXAIRY_val)
  note 2 = pos_16_ai
  have 3: "spec_pos_ai libm_tab (Finite False 16) = (Finite False (1726704064613155 / 83076749736557242056487941267521536))"
    unfolding spec_pos_ai_def
    by (simp add: Let_def libm_tab_def lit_small AN_16 AD_16 sqpii_val dbl_eval)
  show ?thesis using 1 by (simp add: airy_16_ai 2 3)
qed

section \<open>Bi and Bi' in the positive branch\<close>

text \<open>
  Claim C4. For every double \<open>x\<close> with \<open>2.09 \<le> x \<le> 25.77\<close>: when \<open>x > 8.3203353\<close> the
  routine computes Bi and Bi' from the tables BN16, BD16 and BPPN, BPPD, scaled by
  \<open>k = sqpii * exp zeta\<close>, and returns the status 0 at once, no series being summed; when
  \<open>x > 8.3203353\<close> fails it falls through to the two series, which terminate, and Bi and
  Bi' are the combinations of their sums. Which of the two happens is decided by the test
  \<open>x > 8.3203353\<close> alone.
\<close>

theorem airy_bi_direct_or_series:
  assumes "is_double x" "dge x (lit (209 / 10 ^ 2))" "dle x MAXAIRY"
  shows "case airy_pos M x out of (out1, t, g, z) \<Rightarrow>
     g = m_exp M (ddiv (dmul (dmul (lit 2) x) (m_sqrt M x)) (lit 3)) \<and>
     z = ddiv (lit 1) (ddiv (dmul (dmul (lit 2) x) (m_sqrt M x)) (lit 3)) \<and>
     t = m_sqrt M (m_sqrt M x) \<and>
     (dgt x (lit (83203353 / 10 ^ 7)) \<longrightarrow>
        airy M x out = Some (0, out1
          \<lparr>bi := Some (ddiv (dmul (dmul sqpii g)
                   (dadd (lit 1) (ddiv (dmul z (polevl z BN16 4)) (p1evl z BD16 5)))) t),
           bip := Some (dmul (dmul (dmul sqpii g) t)
                   (dadd (lit 1) (ddiv (dmul z (polevl z BPPN 4)) (p1evl z BPPD 5))))\<rparr>)) \<and>
     (\<not> dgt x (lit (83203353 / 10 ^ 7)) \<longrightarrow>
        (\<exists>s1 s2.
          loop1 (dmul (dmul x x) x) (series1_init x) = Some s1 \<and>
          loop2 (dmul (dmul x x) x) (series2_init x (dmul (dmul x x) x)) = Some s2 \<and>
          airy M x out = Some (0, out1
            \<lparr>bi := Some (dmul sqrt3 (dadd (dmul c1 (s_f s1)) (dmul c2 (s_g s1)))),
             bip := Some (dmul sqrt3 (dadd (dmul c1 (s_f s2)) (dmul c2 (s_g s2))))\<rparr>)))"
proof -
  obtain out1 t g z where p: "airy_pos M x out = (out1, t, g, z)" by (cases "airy_pos M x out") auto
  have g: "g = m_exp M (ddiv (dmul (dmul (lit 2) x) (m_sqrt M x)) (lit 3))"
    "z = ddiv (lit 1) (ddiv (dmul (dmul (lit 2) x) (m_sqrt M x)) (lit 3))"
    "t = m_sqrt M (m_sqrt M x)"
    using p by (simp_all add: airy_pos_def Let_def)
  have d: "dge x (lit (209 / 100))" using assms(2) by simp
  have A: "airy M x out = Some (0, out1
          \<lparr>bi := Some (ddiv (dmul (dmul sqpii g)
                   (dadd (lit 1) (ddiv (dmul z (polevl z BN16 4)) (p1evl z BD16 5)))) t),
           bip := Some (dmul (dmul (dmul sqpii g) t)
                   (dadd (lit 1) (ddiv (dmul z (polevl z BPPN 4)) (p1evl z BPPD 5))))\<rparr>)"
    if h: "dgt x (lit (83203353 / 10 ^ 7))"
  proof -
    have "dgt x (lit (83203353 / 10000000))" using h by simp
    from airy_pos_direct[OF d assms(3) this, of M out] show ?thesis
      by (simp add: p airy_pos_large_def Let_def)
  qed
  have B: "\<exists>s1 s2.
          loop1 (dmul (dmul x x) x) (series1_init x) = Some s1 \<and>
          loop2 (dmul (dmul x x) x) (series2_init x (dmul (dmul x x) x)) = Some s2 \<and>
          airy M x out = Some (0, out1
            \<lparr>bi := Some (dmul sqrt3 (dadd (dmul c1 (s_f s1)) (dmul c2 (s_g s1)))),
             bip := Some (dmul sqrt3 (dadd (dmul c1 (s_f s2)) (dmul c2 (s_g s2))))\<rparr>)"
    if h: "\<not> dgt x (lit (83203353 / 10 ^ 7))"
  proof -
    have "\<not> dgt x (lit (83203353 / 10000000))" using h by simp
    from airy_pos_fall[OF assms(1) d not_gt_le[OF d this], of M out] show ?thesis
      by (simp add: p)
  qed
  show ?thesis unfolding p using g A B by simp
qed

theorem airy_bi_direct_or_series_witness:
  "is_double (Finite False 9) \<and> dge (Finite False 9) (lit (209 / 10 ^ 2)) \<and>
   dle (Finite False 9) MAXAIRY \<and> dgt (Finite False 9) (lit (83203353 / 10 ^ 7)) \<and>
   (\<exists>out'. airy libm_tab (Finite False 9) unwritten = Some (0, out') \<and> bi out' \<noteq> None) \<and>
   is_double (Finite False 3) \<and> dge (Finite False 3) (lit (209 / 10 ^ 2)) \<and>
   dle (Finite False 3) MAXAIRY \<and> \<not> dgt (Finite False 3) (lit (83203353 / 10 ^ 7)) \<and>
   (\<exists>s1 out'. loop1 (dmul (dmul (Finite False 3) (Finite False 3)) (Finite False 3))
        (series1_init (Finite False 3)) = Some s1 \<and>
      airy libm_tab (Finite False 3) unwritten = Some (0, out') \<and>
      bi out' = Some (dmul sqrt3 (dadd (dmul c1 (s_f s1)) (dmul c2 (s_g s1)))))"
proof -
  have h9: "dge (Finite False 9) (lit (209 / 10 ^ 2))" "dle (Finite False 9) MAXAIRY"
    "dgt (Finite False 9) (lit (83203353 / 10 ^ 7))"
    by (simp_all add: dge_def dgt_def lit_2_09 lit_8_32 MAXAIRY_val)
  have h3: "dge (Finite False 3) (lit (209 / 10 ^ 2))" "dle (Finite False 3) MAXAIRY"
    "\<not> dgt (Finite False 3) (lit (83203353 / 10 ^ 7))"
    by (simp_all add: dge_def dgt_def lit_2_09 lit_8_32 MAXAIRY_val)
  have 9: "\<exists>out'. airy libm_tab (Finite False 9) unwritten = Some (0, out') \<and> bi out' \<noteq> None"
    using airy_bi_direct_or_series[OF is_double_9 h9(1,2), of libm_tab unwritten] h9(3)
    by (auto split: prod.splits)
  have 3: "\<exists>s1 out'. loop1 (dmul (dmul (Finite False 3) (Finite False 3)) (Finite False 3))
        (series1_init (Finite False 3)) = Some s1 \<and>
      airy libm_tab (Finite False 3) unwritten = Some (0, out') \<and>
      bi out' = Some (dmul sqrt3 (dadd (dmul c1 (s_f s1)) (dmul c2 (s_g s1))))"
    using airy_bi_direct_or_series[OF is_double_3 h3(1,2), of libm_tab unwritten] h3(3)
    by (auto split: prod.splits)
  show ?thesis using is_double_9 is_double_3 h9 h3 9 3 by blast
qed

section \<open>The series leaves Ai and Ai' alone after the positive branch\<close>

text \<open>
  Claim C5. For every double \<open>x\<close> with \<open>2.09 \<le> x \<le> 8.3203353\<close> the routine returns
  with the status 0, and the final combination of the series writes Bi and Bi' only: the
  flag is 5, whose bits 0 and 2 are set and whose bits 1 and 3 are clear, so Ai and Ai' are
  the values that the branch \<open>x \<ge> 2.09\<close> stored, while Bi and Bi' are the combinations of
  the sums of the two series.
\<close>

theorem series_keeps_ai:
  assumes "is_double x" "dge x (lit (209 / 10 ^ 2))" "dle x (lit (83203353 / 10 ^ 7))"
  shows "\<exists>s1 s2 a b.
      loop1 (dmul (dmul x x) x) (series1_init x) = Some s1 \<and>
      loop2 (dmul (dmul x x) x) (series2_init x (dmul (dmul x x) x)) = Some s2 \<and>
      ai (fst (airy_pos M x out)) = Some a \<and> aip (fst (airy_pos M x out)) = Some b \<and>
      (5::int) AND 1 \<noteq> 0 \<and> (5::int) AND 4 \<noteq> 0 \<and> (5::int) AND 2 = 0 \<and> (5::int) AND 8 = 0 \<and>
      airy M x out = Some (0,
         \<lparr>ai = Some a, aip = Some b,
          bi = Some (dmul sqrt3 (dadd (dmul c1 (s_f s1)) (dmul c2 (s_g s1)))),
          bip = Some (dmul sqrt3 (dadd (dmul c1 (s_f s2)) (dmul c2 (s_g s2))))\<rparr>)"
proof -
  have d: "dge x (lit (209 / 100))" "dle x (lit (83203353 / 10000000))" using assms(2,3) by simp_all
  from airy_pos_fall[OF assms(1) d, of M out] obtain s1 s2 where
    s: "loop1 (dmul (dmul x x) x) (series1_init x) = Some s1"
       "loop2 (dmul (dmul x x) x) (series2_init x (dmul (dmul x x) x)) = Some s2"
       "airy M x out = Some (0, (fst (airy_pos M x out))
         \<lparr>bi := Some (dmul sqrt3 (dadd (dmul c1 (s_f s1)) (dmul c2 (s_g s1)))),
          bip := Some (dmul sqrt3 (dadd (dmul c1 (s_f s2)) (dmul c2 (s_g s2))))\<rparr>)" by blast
  obtain a b where ab: "ai (fst (airy_pos M x out)) = Some a" "aip (fst (airy_pos M x out)) = Some b"
    using airy_pos_written[of M x out] by auto
  have "(fst (airy_pos M x out))
         \<lparr>bi := Some (dmul sqrt3 (dadd (dmul c1 (s_f s1)) (dmul c2 (s_g s1)))),
          bip := Some (dmul sqrt3 (dadd (dmul c1 (s_f s2)) (dmul c2 (s_g s2))))\<rparr> =
        \<lparr>ai = Some a, aip = Some b,
          bi = Some (dmul sqrt3 (dadd (dmul c1 (s_f s1)) (dmul c2 (s_g s1)))),
          bip = Some (dmul sqrt3 (dadd (dmul c1 (s_f s2)) (dmul c2 (s_g s2))))\<rparr>"
    using ab by (cases "fst (airy_pos M x out)") simp
  then show ?thesis using s ab by simp
qed

theorem series_keeps_ai_witness:
  "is_double (Finite False 3) \<and> dge (Finite False 3) (lit (209 / 10 ^ 2)) \<and>
   dle (Finite False 3) (lit (83203353 / 10 ^ 7)) \<and>
   (\<exists>out'. airy libm_tab (Finite False 3) unwritten = Some (0, out') \<and>
      ai out' = ai (fst (airy_pos libm_tab (Finite False 3) unwritten)) \<and>
      aip out' = aip (fst (airy_pos libm_tab (Finite False 3) unwritten)))"
proof -
  have h: "dge (Finite False 3) (lit (209 / 10 ^ 2))" "dle (Finite False 3) (lit (83203353 / 10 ^ 7))"
    by (simp_all add: dge_def lit_2_09 lit_8_32)
  show ?thesis
    using series_keeps_ai[OF is_double_3 h, of libm_tab unwritten] is_double_3 h by auto
qed

section \<open>All four outputs are written\<close>

text \<open>
  Claim C6. For every finite double \<open>x\<close> the routine returns, and every one of the four
  output locations has been written when it does, also when nothing was stored in them
  before the call. Either the status is 0 (exactly when \<open>x > 25.77\<close> fails) and the four
  values come from the branches, or the status is -1 (exactly when \<open>x > 25.77\<close>) and the
  four values are 0, 0, MAXNUM and MAXNUM.
\<close>

theorem airy_total:
  assumes "is_double (Finite s r)"
  shows "\<exists>st out'. airy M (Finite s r) unwritten = Some (st, out') \<and>
      ai out' \<noteq> None \<and> aip out' \<noteq> None \<and> bi out' \<noteq> None \<and> bip out' \<noteq> None \<and>
      (if dgt (Finite s r) MAXAIRY then st = - 1 \<and> out' = saturated unwritten else st = 0)"
proof -
  define x where "x = Finite s r"
  have m: "mag_ok x" unfolding x_def by (rule is_double_mag_ok[OF assms])
  let ?lo = "dneg (lit (209 / 100))" and ?mid = "lit (209 / 100)" and ?hi = "lit (83203353 / 10000000)"
  consider (over) "dgt x MAXAIRY"
    | (neg) "\<not> dgt x MAXAIRY" "dlt x ?lo"
    | (large) "\<not> dgt x MAXAIRY" "\<not> dlt x ?lo" "dge x ?mid" "dgt x ?hi"
    | (fall) "\<not> dgt x MAXAIRY" "\<not> dlt x ?lo" "dge x ?mid" "\<not> dgt x ?hi"
    | (zero) "\<not> dgt x MAXAIRY" "\<not> dlt x ?lo" "\<not> dge x ?mid"
    by blast
  then have "\<exists>st out'. airy M x unwritten = Some (st, out') \<and>
      ai out' \<noteq> None \<and> aip out' \<noteq> None \<and> bi out' \<noteq> None \<and> bip out' \<noteq> None \<and>
      (if dgt x MAXAIRY then st = - 1 \<and> out' = saturated unwritten else st = 0)"
  proof cases
    case over
    then show ?thesis by (simp add: airy_def saturated_def)
  next
    case neg
    then show ?thesis using airy_neg_written[of M x unwritten] by (simp add: airy_def)
  next
    case large
    then show ?thesis
      using airy_pos_written[of M x unwritten] airy_pos_large_written
      by (auto simp: airy_def split: prod.splits)
  next
    case fall
    have d1: "dge x ?lo" using fall(3) by (rule lit_2_09_ge)
    have d2: "dle x ?hi" using fall(4) by (simp add: x_def lit_8_32 dgt_def split: if_splits)
    note d = d1 d2
    from airy_series_returns[OF m d] obtain out' 
      where o: "airy_series x 5 (fst (airy_pos M x unwritten)) = Some (0, out')" by blast
    from airy_series_frame[OF o] airy_pos_written[of M x unwritten] fall o
    show ?thesis by (auto simp: airy_def split: prod.splits)
  next
    case zero
    have d1: "dge x ?lo" using zero(2) by (simp add: x_def lit_2_09 dge_def split: if_splits)
    have d2: "dle x ?hi" using zero(3) by (simp add: x_def lit_2_09 lit_8_32 dge_def split: if_splits)
    note d = d1 d2
    from airy_series_returns[OF m d] obtain out' 
      where o: "airy_series x 0 unwritten = Some (0, out')" by blast
    from airy_series_frame[OF o] zero o
    show ?thesis by (auto simp: airy_def)
  qed
  then show ?thesis by (simp only: x_def)
qed

theorem airy_total_witness:
  "is_double (Finite False 1) \<and> \<not> dgt (Finite False 1) MAXAIRY \<and>
   (\<exists>out'. airy libm_tab (Finite False 1) unwritten = Some (0, out') \<and>
      ai out' \<noteq> None \<and> aip out' \<noteq> None \<and> bi out' \<noteq> None \<and> bip out' \<noteq> None)"
proof -
  have n: "\<not> dgt (Finite False 1) MAXAIRY" by (simp add: dgt_def MAXAIRY_val)
  show ?thesis using airy_total[OF is_double_1, of libm_tab] is_double_1 n by auto
qed

section \<open>The values at zero\<close>

text \<open>
  Claim C7. At \<open>x = 0\<close> each series stops after one iteration, the first with the sums
  \<open>f = 1\<close> and \<open>g = 0\<close>, the second with \<open>f = 0\<close> and \<open>g = 1\<close>, and the routine returns
  the status 0 with exactly Ai = c1, Ai' = -c2, Bi = sqrt3 * c1 and Bi' = sqrt3 * c2, where
  c1 and c2 are the doubles of the literals 0.35502805388781723926 and
  0.258819403792806798405.
\<close>

theorem airy_at_zero:
  "loop1 (Finite False 0) (series1_init (Finite False 0)) =
     Some \<lparr>s_uf = Finite False 0, s_ug = Finite False 0, s_k = Finite False 4,
            s_f = Finite False 1, s_g = Finite False 0, s_t = Finite False 0\<rparr> \<and>
   loop2 (Finite False 0) (series2_init (Finite False 0) (Finite False 0)) =
     Some \<lparr>s_uf = Finite False 0, s_ug = Finite False 0, s_k = Finite False 7,
            s_f = Finite False 0, s_g = Finite False 1, s_t = Finite False 0\<rparr> \<and>
   airy M (lit 0) out =
     Some (0, \<lparr>ai = Some c1, aip = Some (dneg c2),
               bi = Some (dmul sqrt3 c1), bip = Some (dmul sqrt3 c2)\<rparr>) \<and>
   c1 = lit (35502805388781723926 / 10 ^ 20) \<and>
   c2 = lit (258819403792806798405 / 10 ^ 21)"
proof -
  have z: "dmul (dmul (Finite False 0) (Finite False 0)) (Finite False 0) = Finite False 0"
    by (simp add: round_double_zero)
  have "airy M (lit 0) out = airy_series (Finite False 0) 0 out"
    by (simp add: airy_def lit_0 dgt_def dge_def MAXAIRY_val lit_2_09)
  also have "\<dots> = Some (0, \<lparr>ai = Some c1, aip = Some (dneg c2),
               bi = Some (dmul sqrt3 c1), bip = Some (dmul sqrt3 c2)\<rparr>)"
    unfolding airy_series_def z Let_def loop1_zero loop2_zero
    by (cases out) (simp add: c1_val c2_val sqrt3_val dsub_def dbl_eval)
  finally show ?thesis using loop1_zero loop2_zero by (simp add: c1_def c2_def)
qed

theorem airy_at_zero_witness:
  "airy libm_tab (Finite False 0) unwritten =
     Some (0, \<lparr>ai = Some (Finite False (799452105597623 / 2251799813685248)),
               aip = Some (Finite True (4662475881910155 / 18014398509481984)),
               bi = Some (Finite False (5538766660452009 / 9007199254740992)),
               bip = Some (Finite False (8075645116532897 / 18014398509481984))\<rparr>)"
  using airy_at_zero[of libm_tab unwritten] unfolding lit_0 c1_val c2_val sqrt3_val
  by (simp add: round_double_def rnd_fast' ilog2_def rhe_def bitlen_numeral bitlen_one
      floor_rat_numeral ceiling_rat_numeral)

section \<open>Termination of the series\<close>

text \<open>
  Claim C8. For every double \<open>x\<close> with \<open>-2.09 \<le> x \<le> 8.3203353\<close> (the inputs that
  reach the power series, directly or after the branch \<open>x \<ge> 2.09\<close> falls through), both
  \<^verbatim>\<open>while\<close> statements terminate: each returns a state in which the test
  \<open>t > MACHEP\<close> fails, and the routine returns with the status 0. The reason is in the
  arithmetic: once the counter \<open>k\<close> has passed 600 the term under test is at most halved
  by each iteration, so it underflows to zero (or the sum becomes a NaN), and the test fails.
\<close>

theorem series_terminate_on_domain:
  assumes "is_double x" "dge x (dneg (lit (209 / 10 ^ 2)))" "dle x (lit (83203353 / 10 ^ 7))"
  shows "(\<exists>s1. loop1 (dmul (dmul x x) x) (series1_init x) = Some s1 \<and> \<not> dgt (s_t s1) MACHEP) \<and>
    (\<exists>s2. loop2 (dmul (dmul x x) x) (series2_init x (dmul (dmul x x) x)) = Some s2 \<and>
       \<not> dgt (s_t s2) MACHEP) \<and>
    (\<exists>out'. airy M x out = Some (0, out'))"
proof -
  have m: "mag_ok x" by (rule is_double_mag_ok[OF assms(1)])
  have d: "dge x (dneg (lit (209 / 100)))" "dle x (lit (83203353 / 10000000))"
    using assms(2,3) by simp_all
  from series_terminates[OF m d] loop1_exit loop2_exit
  have "(\<exists>s1. loop1 (dmul (dmul x x) x) (series1_init x) = Some s1 \<and> \<not> dgt (s_t s1) MACHEP)"
    "(\<exists>s2. loop2 (dmul (dmul x x) x) (series2_init x (dmul (dmul x x) x)) = Some s2 \<and>
       \<not> dgt (s_t s2) MACHEP)" by blast+
  moreover have "\<exists>out'. airy M x out = Some (0, out')"
    unfolding airy_on_domain[OF d] using airy_series_returns[OF m d] by simp
  ultimately show ?thesis by blast
qed

theorem series_terminate_on_domain_witness:
  "is_double (Finite False 1) \<and> dge (Finite False 1) (dneg (lit (209 / 10 ^ 2))) \<and>
   dle (Finite False 1) (lit (83203353 / 10 ^ 7)) \<and>
   (\<exists>s1. loop1 (Finite False 1) (series1_init (Finite False 1)) = Some s1 \<and> \<not> dgt (s_t s1) MACHEP) \<and>
   (\<exists>out'. airy libm_tab (Finite False 1) unwritten = Some (0, out'))"
proof -
  have h: "dge (Finite False 1) (dneg (lit (209 / 10 ^ 2)))" "dle (Finite False 1) (lit (83203353 / 10 ^ 7))"
    by (simp_all add: dge_def lit_2_09 lit_8_32)
  have c: "dmul (dmul (Finite False 1) (Finite False 1)) (Finite False 1) = Finite False 1"
    using lit_nat[of 1] by (simp add: lit_def)
  show ?thesis
    using series_terminate_on_domain[OF is_double_1 h, of libm_tab unwritten] is_double_1 h
    unfolding c by blast
qed

end
